theory Spec2Isabelle
  imports Main "HOL-Library.Char_ord" "HOL-Library.List_Lexorder" "HOL-Library.Multiset"
begin

text \<open>
  The search engine of FA Nexus (\<^verbatim>\<open>scripts/search/search-manager.js\<close>):
  \<^verbatim>\<open>tokenizeQuery\<close>, \<^verbatim>\<open>parseQueryAST\<close>, \<^verbatim>\<open>evaluateExpression\<close>,
  \<^verbatim>\<open>scoreMatch\<close>, \<^verbatim>\<open>matches\<close> and \<^verbatim>\<open>NexusSearchManager.filter\<close>, as
  functions on values, followed by the properties proved of them.
\<close>

section \<open>Characters and strings\<close>

text \<open>
  Strings are lists of 8-bit code units read as ASCII.  The source relies on three
  character classes: \<^verbatim>\<open>\s\<close> (also the set removed by \<^verbatim>\<open>trim()\<close>),
  \<^verbatim>\<open>[a-z0-9]\<close> (the complement of \<^verbatim>\<open>WORD_BOUNDARY_RE\<close>) and the letters
  changed by \<^verbatim>\<open>toLowerCase()\<close>.
\<close>

abbreviation SQ :: char where "SQ \<equiv> CHR 0x27"
abbreviation DQ :: char where "DQ \<equiv> CHR 0x22"
abbreviation DASH :: char where "DASH \<equiv> CHR ''-''"
abbreviation LP :: char where "LP \<equiv> CHR ''(''"
abbreviation RP :: char where "RP \<equiv> CHR '')''"

definition isSpace :: "char \<Rightarrow> bool" where
  "isSpace c \<longleftrightarrow> c = CHR '' '' \<or> c = CHR 0x09 \<or> c = CHR 0x0A \<or> c = CHR 0x0B
     \<or> c = CHR 0x0C \<or> c = CHR 0x0D"

definition isAlnum :: "char \<Rightarrow> bool" where
  "isAlnum c \<longleftrightarrow> (let n = (of_char c :: nat) in (97 \<le> n \<and> n \<le> 122) \<or> (48 \<le> n \<and> n \<le> 57))"

definition lowerChar :: "char \<Rightarrow> char" where
  "lowerChar c = (let n = (of_char c :: nat) in if 65 \<le> n \<and> n \<le> 90 then char_of (n + 32) else c)"

definition toLowerCase :: "string \<Rightarrow> string" where
  "toLowerCase s = map lowerChar s"

definition trim :: "string \<Rightarrow> string" where
  "trim s = rev (dropWhile isSpace (rev (dropWhile isSpace s)))"

text \<open>\<^verbatim>\<open>s.startsWith(p)\<close> at offset \<open>0\<close>, and \<^verbatim>\<open>s.includes(p)\<close>.\<close>

fun startsWith :: "string \<Rightarrow> string \<Rightarrow> bool" where
  "startsWith s [] = True"
| "startsWith [] (p # ps) = False"
| "startsWith (c # cs) (p # ps) = (c = p \<and> startsWith cs ps)"

fun indexOfFrom :: "nat \<Rightarrow> string \<Rightarrow> string \<Rightarrow> nat option" where
  "indexOfFrom i [] p = (if p = [] then Some i else None)"
| "indexOfFrom i (c # cs) p = (if startsWith (c # cs) p then Some i else indexOfFrom (Suc i) cs p)"

text \<open>\<^verbatim>\<open>s.indexOf(p)\<close>: the lowest index of an occurrence, \<open>None\<close> for \<open>-1\<close>.\<close>

definition indexOf :: "string \<Rightarrow> string \<Rightarrow> nat option" where
  "indexOf s p = indexOfFrom 0 s p"

definition includesStr :: "string \<Rightarrow> string \<Rightarrow> bool" where
  "includesStr s p \<longleftrightarrow> indexOf s p \<noteq> None"

text \<open>\<^verbatim>\<open>s.charAt(i)\<close>: the one-character string at \<open>i\<close>, the empty string out of range.\<close>

definition charAt :: "string \<Rightarrow> nat \<Rightarrow> string" where
  "charAt s i = (if i < length s then [s ! i] else [])"

text \<open>\<^verbatim>\<open>xs.join(' ')\<close> on strings.\<close>

fun joinWith :: "string \<Rightarrow> string list \<Rightarrow> string" where
  "joinWith sep [] = []"
| "joinWith sep [x] = x"
| "joinWith sep (x # y # ys) = x @ sep @ joinWith sep (y # ys)"

section \<open>Tokens\<close>

text \<open>The token objects \<^verbatim>\<open>{ type, value, exact, negated }\<close>; \<open>TERMt\<close> is the type \<^verbatim>\<open>TERM\<close>
  (an absent \<^verbatim>\<open>exact\<close> is falsy and modelled as \<open>False\<close>).\<close>

datatype token =
    TERMt (tvalue: string) (texact: bool) (tnegated: bool)
  | AND
  | OR
  | NOT
  | LPAREN
  | RPAREN

subsection \<open>The lexeme scan\<close>

text \<open>
  \<^verbatim>\<open>String(query).match(/\(|\)|'[^']*'|"[^"]*"|[^\s()]+/g) || []\<close>: at each position the
  alternatives are tried in order; where none matches the scan moves one character on.
  A quote with no closing quote of its kind falls through to the last alternative, whose
  run may itself contain quotes.
\<close>

definition isRunChar :: "char \<Rightarrow> bool" where
  "isRunChar d \<longleftrightarrow> \<not> isSpace d \<and> d \<noteq> LP \<and> d \<noteq> RP"

function rawTokens :: "string \<Rightarrow> string list" where
  "rawTokens [] = []"
| "rawTokens (c # cs) =
    (if c = LP \<or> c = RP then [c] # rawTokens cs
     else if (c = SQ \<or> c = DQ) \<and> c \<in> set cs
       then (c # takeWhile (\<lambda>d. d \<noteq> c) cs @ [c]) # rawTokens (tl (dropWhile (\<lambda>d. d \<noteq> c) cs))
     else if isSpace c then rawTokens cs
     else (c # takeWhile isRunChar cs) # rawTokens (dropWhile isRunChar cs))"
  by pat_completeness auto
termination
proof (relation "measure length")
  fix c :: char and cs :: string
  have "length (tl (dropWhile (\<lambda>d. d \<noteq> c) cs)) \<le> length cs"
    using length_dropWhile_le [of "\<lambda>d. d \<noteq> c" cs] by simp
  then show "(tl (dropWhile (\<lambda>d. d \<noteq> c) cs), c # cs) \<in> measure length"
    by simp
next
  fix c :: char and cs :: string
  show "(dropWhile isRunChar cs, c # cs) \<in> measure length"
    using length_dropWhile_le [of isRunChar cs] by simp
qed simp_all

subsection \<open>tokenizeQuery\<close>

text \<open>The loop peeling leading parentheses; a pending negation becomes one \<open>NOT\<close>.\<close>

fun peelParens :: "token list \<Rightarrow> bool \<Rightarrow> string \<Rightarrow> token list \<times> bool \<times> string" where
  "peelParens toks negated [] = (toks, negated, [])"
| "peelParens toks negated (c # cs) =
    (if c = LP
     then peelParens ((if negated then toks @ [NOT] else toks) @ [LPAREN]) False cs
     else (toks, negated, c # cs))"

text \<open>\<^verbatim>\<open>/^'[^']*'$/.test(tok)\<close> for the quote character \<open>q\<close>.\<close>

definition fullyQuoted :: "char \<Rightarrow> string \<Rightarrow> bool" where
  "fullyQuoted q tok \<longleftrightarrow>
     2 \<le> length tok \<and> hd tok = q \<and> last tok = q \<and> q \<notin> set (butlast (tl tok))"

text \<open>
  One iteration of the loop over the raw lexemes.  The state is the token array and
  \<open>pendingNegation\<close>.
\<close>

definition tokenizeStep :: "token list \<times> bool \<Rightarrow> string \<Rightarrow> token list \<times> bool" where
  "tokenizeStep st raw =
    (let tokens = fst st; pendingNegation = snd st; tok0 = trim raw in
     if tok0 = [] then (tokens, pendingNegation)
     else if tok0 = [DASH] then (tokens, True)
     else
       let negated1 = (pendingNegation \<or> hd tok0 = DASH);
           tok1 = dropWhile (\<lambda>c. c = DASH) tok0 in
       if tok1 = [] then (tokens, negated1)
       else
         let (tokens2, negated, tok2) = peelParens tokens negated1 tok1;
             trailingParens = length (takeWhile (\<lambda>c. c = RP) (rev tok2));
             tok = rev (dropWhile (\<lambda>c. c = RP) (rev tok2));
             closing = replicate trailingParens RPAREN in
         if tok = [] then (tokens2 @ closing, False)
         else if fullyQuoted SQ tok \<or> fullyQuoted DQ tok then
           (let inner = toLowerCase (trim (butlast (tl tok))) in
            if inner \<noteq> [] then
              (if \<not> (negated \<and> length inner < 2)
               then (tokens2 @ [TERMt inner True negated] @ closing, False)
               else (tokens2 @ closing, True))
            else if negated then (tokens2 @ closing, True)
            else (tokens2 @ closing, False))
         else if \<not> negated \<and> toLowerCase tok = ''and'' then (tokens2 @ [AND] @ closing, False)
         else if \<not> negated \<and> toLowerCase tok = ''or'' then (tokens2 @ [OR] @ closing, False)
         else if \<not> negated \<and> toLowerCase tok = ''not'' then (tokens2 @ [NOT] @ closing, False)
         else
           (let v = toLowerCase tok in
            if negated \<and> length v < 2 then (tokens2 @ closing, True)
            else (tokens2 @ [TERMt v False negated] @ closing, False)))"

definition tokenizeQuery :: "string \<Rightarrow> token list" where
  "tokenizeQuery query = fst (foldl tokenizeStep ([], False) (rawTokens query))"

section \<open>Records and the haystack\<close>

text \<open>
  A record is a plain object.  Its property values are JavaScript values; the engine
  reads them through \<^verbatim>\<open>||\<close>, string concatenation, \<^verbatim>\<open>String()\<close>,
  \<^verbatim>\<open>Array.isArray\<close> and \<^verbatim>\<open>join\<close>.  Numbers are the integers (printed in
  decimal, as JavaScript does below \<open>10^21\<close>), arrays hold strings.  A property that
  is absent reads as \<open>JUndefined\<close>, as does any property of a null item behind
  \<^verbatim>\<open>item?.\<close>.
\<close>

datatype jsval = JUndefined | JNull | JString string | JNumber int | JArray "string list"

type_synonym jsrecord = "string \<Rightarrow> jsval"

function showNat :: "nat \<Rightarrow> string" where
  "showNat n = (if n < 10 then [char_of (48 + n)] else showNat (n div 10) @ [char_of (48 + n mod 10)])"
  by pat_completeness auto
termination
  by (relation "measure id") auto

definition showInt :: "int \<Rightarrow> string" where
  "showInt i = (if i < 0 then DASH # showNat (nat (- i)) else showNat (nat i))"

fun truthy :: "jsval \<Rightarrow> bool" where
  "truthy JUndefined = False"
| "truthy JNull = False"
| "truthy (JString s) = (s \<noteq> [])"
| "truthy (JNumber n) = (n \<noteq> 0)"
| "truthy (JArray xs) = True"

text \<open>\<^verbatim>\<open>String(v)\<close>, which is also how \<^verbatim>\<open>+\<close> turns \<open>v\<close> into text beside a string.\<close>

fun toStr :: "jsval \<Rightarrow> string" where
  "toStr JUndefined = ''undefined''"
| "toStr JNull = ''null''"
| "toStr (JString s) = s"
| "toStr (JNumber n) = showInt n"
| "toStr (JArray xs) = joinWith '','' xs"

text \<open>\<^verbatim>\<open>a || b\<close>.\<close>

definition jsOr :: "jsval \<Rightarrow> jsval \<Rightarrow> jsval" where
  "jsOr a b = (if truthy a then a else b)"

text \<open>The text \<^verbatim>\<open>Array.prototype.join\<close> gives an element: nothing for null and undefined.\<close>

fun joinElem :: "jsval \<Rightarrow> string" where
  "joinElem JUndefined = []"
| "joinElem JNull = []"
| "joinElem v = toStr v"

definition buildHaystack :: "jsrecord \<Rightarrow> string" where
  "buildHaystack item =
    (let tags = (case item ''tags'' of JArray xs \<Rightarrow> JString (joinWith '' '' xs)
                                     | v \<Rightarrow> jsOr v (JString []));
         grid_size = JString (toStr (item ''grid_width'') @ ''x'' @ toStr (item ''grid_height''));
         scale = JString (''s'' @ toStr (item ''scale'') @ ''x'');
         fields =
           [jsOr (item ''display_name'') (JString []),
            jsOr (item ''filename'') (JString []),
            jsOr (item ''path'') (JString []),
            jsOr scale (JString []),
            jsOr grid_size (JString []),
            jsOr (item ''size'') (JString []),
            jsOr (item ''creature_type'') (JString []),
            jsOr (item ''variant'') (JString []),
            jsOr (item ''source'') (JString []),
            jsOr (item ''tier'') (JString []),
            jsOr (item ''color_variant'') (JString []),
            tags]
     in toLowerCase (joinWith '' '' (map joinElem fields)))"

definition displayKey :: "jsrecord \<Rightarrow> string" where
  "displayKey item =
     toStr (jsOr (item ''display_name'') (jsOr (item ''displayName'')
             (jsOr (item ''filename'') (jsOr (item ''name'') (JString [])))))"

section \<open>Term matching\<close>

text \<open>\<^verbatim>\<open>WORD_BOUNDARY_RE.test(s)\<close> with \<^verbatim>\<open>/[^a-z0-9]/\<close>.\<close>

definition wordBoundaryTest :: "string \<Rightarrow> bool" where
  "wordBoundaryTest s \<longleftrightarrow> list_ex (\<lambda>c. \<not> isAlnum c) s"

definition hasWordBoundary :: "string \<Rightarrow> nat \<Rightarrow> nat \<Rightarrow> bool" where
  "hasWordBoundary str index len =
    (let prev = (if index = 0 then [] else charAt str (index - 1));
         next = charAt str (index + len);
         beforeOK = (prev = [] \<or> wordBoundaryTest prev);
         afterOK = (next = [] \<or> wordBoundaryTest next)
     in beforeOK \<and> afterOK)"

text \<open>
  The regular expression of an exact term,
  \<^verbatim>\<open>(?:^|[^a-z0-9])\<close> \<open>value\<close> \<^verbatim>\<open>(?:$|[^a-z0-9])\<close>, where \<^verbatim>\<open>escapeRegExp\<close> has made
  every character of \<open>value\<close> a literal.  \<open>rxTail\<close> is the closing group at the current
  position, \<open>rxAt\<close> one attempt at a start position (\<open>atStart\<close> says whether \<^verbatim>\<open>^\<close>
  holds there) with both branches of the opening group, and \<open>rxScan\<close> the attempts at
  every start position from left to right, as \<^verbatim>\<open>pattern.test(haystack)\<close> makes them.
\<close>

definition rxTail :: "string \<Rightarrow> bool" where
  "rxTail s \<longleftrightarrow> (case s of [] \<Rightarrow> True | c # _ \<Rightarrow> \<not> isAlnum c)"

definition rxAt :: "bool \<Rightarrow> string \<Rightarrow> string \<Rightarrow> bool" where
  "rxAt atStart v s \<longleftrightarrow>
     (atStart \<and> startsWith s v \<and> rxTail (drop (length v) s))
     \<or> (case s of [] \<Rightarrow> False
         | c # cs \<Rightarrow> \<not> isAlnum c \<and> startsWith cs v \<and> rxTail (drop (length v) cs))"

fun rxScan :: "bool \<Rightarrow> string \<Rightarrow> string \<Rightarrow> bool" where
  "rxScan atStart v [] = rxAt atStart v []"
| "rxScan atStart v (c # cs) = (rxAt atStart v (c # cs) \<or> rxScan False v cs)"

definition haystackIncludesTerm :: "string \<Rightarrow> token \<Rightarrow> bool" where
  "haystackIncludesTerm haystack tok =
    (case tok of
       TERMt v exact negated \<Rightarrow>
         if v = [] then False
         else if \<not> exact then includesStr haystack v
         else rxScan True v haystack
     | _ \<Rightarrow> False)"

section \<open>The expression tree and its parser\<close>

text \<open>
  The nodes \<^verbatim>\<open>{ kind: 'TERM', token }\<close>, \<^verbatim>\<open>{ kind, left, right }\<close> and
  \<^verbatim>\<open>{ kind: 'NOT', operand }\<close>; a null tree is \<open>None\<close>.
\<close>

datatype node =
    Term_node token
  | And_node node node
  | Or_node node node
  | Not_node node

datatype binkind = KAnd | KOr

definition combine :: "node option \<Rightarrow> node option \<Rightarrow> binkind \<Rightarrow> node option" where
  "combine left right kind =
    (case left of None \<Rightarrow> right
     | Some l \<Rightarrow> (case right of None \<Rightarrow> left
         | Some r \<Rightarrow> Some (case kind of KAnd \<Rightarrow> And_node l r | KOr \<Rightarrow> Or_node l r)))"

text \<open>
  \<^verbatim>\<open>operand.kind === 'TERM' && (!operand.token?.value || operand.token.value.length < 2)\<close>
\<close>

fun shortTermOperand :: "node \<Rightarrow> bool" where
  "shortTermOperand (Term_node (TERMt v exact negated)) = (v = [] \<or> length v < 2)"
| "shortTermOperand (Term_node _) = True"
| "shortTermOperand _ = False"

text \<open>
  \<^verbatim>\<open>parseQueryAST\<close> is a recursive descent over the token array with a cursor
  \<^verbatim>\<open>index\<close>; here the cursor is the list of tokens from \<^verbatim>\<open>index\<close> on, so
  \<^verbatim>\<open>peek()\<close> is its head and \<^verbatim>\<open>consume()\<close> drops it.  Every function returns
  its node and the cursor it leaves.  The two \<^verbatim>\<open>while (true)\<close> loops are
  \<open>parseOrLoop\<close> and \<open>parseAndLoop\<close>.  The first argument bounds the depth of calls
  and loop rounds: \<open>None\<close> means the bound was reached before the function returned.
  The call stack of the host is left out here and in \<open>evalNode\<close> and
  \<open>collectPositiveTerms\<close>; the section on the call stack writes it out.
\<close>

function (sequential) parseOr :: "nat \<Rightarrow> token list \<Rightarrow> (node option \<times> token list) option"
  and parseOrLoop :: "nat \<Rightarrow> node option \<Rightarrow> token list \<Rightarrow> (node option \<times> token list) option"
  and parseAnd :: "nat \<Rightarrow> token list \<Rightarrow> (node option \<times> token list) option"
  and parseAndLoop :: "nat \<Rightarrow> node option \<Rightarrow> token list \<Rightarrow> (node option \<times> token list) option"
  and parseUnary :: "nat \<Rightarrow> token list \<Rightarrow> (node option \<times> token list) option"
  and parsePrimary :: "nat \<Rightarrow> token list \<Rightarrow> (node option \<times> token list) option"
where
  "parseOr 0 ts = None"
| "parseOr (Suc n) ts =
    (case parseAnd n ts of None \<Rightarrow> None
     | Some (nd, ts1) \<Rightarrow> parseOrLoop n nd ts1)"
| "parseOrLoop 0 nd ts = None"
| "parseOrLoop (Suc n) nd ts =
    (case ts of
       OR # rest \<Rightarrow>
         (case parseAnd n rest of None \<Rightarrow> None
          | Some (right, ts2) \<Rightarrow> parseOrLoop n (combine nd right KOr) ts2)
     | _ \<Rightarrow> Some (nd, ts))"
| "parseAnd 0 ts = None"
| "parseAnd (Suc n) ts =
    (case parseUnary n ts of None \<Rightarrow> None
     | Some (nd, ts1) \<Rightarrow> parseAndLoop n nd ts1)"
| "parseAndLoop 0 nd ts = None"
| "parseAndLoop (Suc n) nd ts =
    (case ts of
       [] \<Rightarrow> Some (nd, ts)
     | AND # rest \<Rightarrow>
         (case parseUnary n rest of None \<Rightarrow> None
          | Some (None, ts2) \<Rightarrow> Some (nd, ts2)
          | Some (Some r, ts2) \<Rightarrow> parseAndLoop n (combine nd (Some r) KAnd) ts2)
     | OR # rest \<Rightarrow> Some (nd, ts)
     | RPAREN # rest \<Rightarrow> Some (nd, ts)
     | _ \<Rightarrow>
         (case parseUnary n ts of None \<Rightarrow> None
          | Some (None, ts2) \<Rightarrow> Some (nd, ts2)
          | Some (Some r, ts2) \<Rightarrow> parseAndLoop n (combine nd (Some r) KAnd) ts2))"
| "parseUnary 0 ts = None"
| "parseUnary (Suc n) ts =
    (case ts of
       [] \<Rightarrow> Some (None, ts)
     | NOT # rest \<Rightarrow>
         (case parseUnary n rest of None \<Rightarrow> None
          | Some (None, ts1) \<Rightarrow> Some (None, ts1)
          | Some (Some operand, ts1) \<Rightarrow>
              if shortTermOperand operand then Some (None, ts1)
              else Some (Some (Not_node operand), ts1))
     | _ \<Rightarrow> parsePrimary n ts)"
| "parsePrimary 0 ts = None"
| "parsePrimary (Suc n) ts =
    (case ts of
       [] \<Rightarrow> Some (None, ts)
     | TERMt v exact negated # rest \<Rightarrow>
         Some (Some (if negated then Not_node (Term_node (TERMt v exact negated))
                     else Term_node (TERMt v exact negated)), rest)
     | LPAREN # rest \<Rightarrow>
         (case parseOr n rest of None \<Rightarrow> None
          | Some (expr, ts1) \<Rightarrow>
              (case ts1 of RPAREN # ts2 \<Rightarrow> Some (expr, ts2) | _ \<Rightarrow> Some (expr, ts1)))
     | _ # rest \<Rightarrow> Some (None, rest))"
  by pat_completeness auto
termination
  by (relation "measure (case_sum (case_sum fst (case_sum fst fst)) (case_sum fst (case_sum fst fst)))")
     auto

text \<open>
  \<^verbatim>\<open>parseQueryAST(tokens)\<close>: the tree \<open>parseOr\<close> returns from the first token on.
  The outer \<open>None\<close> is a parse that did not return within the bound, which
  \<open>parseQueryAST_returns\<close> below excludes; \<open>Some None\<close> is the null tree.
\<close>

definition parseQueryAST :: "token list \<Rightarrow> node option option" where
  "parseQueryAST tokens = map_option fst (parseOr (4 * length tokens + 4) tokens)"

section \<open>Evaluation\<close>

fun evalNode :: "node \<Rightarrow> string \<Rightarrow> bool" where
  "evalNode (Term_node tok) haystack = haystackIncludesTerm haystack tok"
| "evalNode (And_node l r) haystack = (evalNode l haystack \<and> evalNode r haystack)"
| "evalNode (Or_node l r) haystack = (evalNode l haystack \<or> evalNode r haystack)"
| "evalNode (Not_node operand) haystack = (\<not> evalNode operand haystack)"

definition evaluateExpression :: "node option \<Rightarrow> string \<Rightarrow> bool" where
  "evaluateExpression nd haystack = (case nd of None \<Rightarrow> True | Some n \<Rightarrow> evalNode n haystack)"

fun collectPositiveTerms :: "node \<Rightarrow> token list \<Rightarrow> bool \<Rightarrow> token list" where
  "collectPositiveTerms (Term_node tok) out negated = (if \<not> negated then out @ [tok] else out)"
| "collectPositiveTerms (And_node l r) out negated =
     collectPositiveTerms r (collectPositiveTerms l out negated) negated"
| "collectPositiveTerms (Or_node l r) out negated =
     collectPositiveTerms r (collectPositiveTerms l out negated) negated"
| "collectPositiveTerms (Not_node operand) out negated =
     collectPositiveTerms operand out (\<not> negated)"

section \<open>Scoring\<close>

text \<open>\<^verbatim>\<open>filename.replace(/\.[^.]+$/, '')\<close>: the last dot and what follows it, unless nothing follows.\<close>

definition stripExtension :: "string \<Rightarrow> string" where
  "stripExtension s =
    (let ext = takeWhile (\<lambda>c. c \<noteq> CHR ''.'') (rev s)
     in if CHR ''.'' \<in> set s \<and> ext \<noteq> [] then take (length s - length ext - 1) s else s)"

text \<open>
  What one round of the loop over the positive terms adds to \<^verbatim>\<open>score\<close>; every
  \<^verbatim>\<open>continue\<close> of the source ends the round with the amount added so far.
\<close>

definition scoreTerm :: "string \<Rightarrow> string \<Rightarrow> string \<Rightarrow> string \<Rightarrow> token \<Rightarrow> nat" where
  "scoreTerm nameRoot displayName path tags term =
    (case term of
       TERMt v exact negated \<Rightarrow>
         if v = [] then 0
         else
           let len = length v in
           if nameRoot = v then 2000
           else if displayName = v then 1600
           else (case indexOf nameRoot v of
             Some nameIdx \<Rightarrow>
               (let boundary = hasWordBoundary nameRoot nameIdx len in
                if nameIdx = 0 then
                  (if exact then (if boundary then 1200 else 0)
                   else
                     (let nextCh = charAt nameRoot len;
                          nextBoundary = (nextCh = [] \<or> wordBoundaryTest nextCh)
                      in if nextBoundary then 1100 else 900))
                else if boundary then (if exact then 950 else 750)
                else if \<not> exact then 500
                else 0)
           | None \<Rightarrow>
             (case indexOf displayName v of
               Some displayIdx \<Rightarrow>
                 (let boundary = hasWordBoundary displayName displayIdx len in
                  if displayIdx = 0 then
                    (if exact then (if boundary then 560 else 0)
                     else
                       (let nextCh = charAt displayName len;
                            nextBoundary = (nextCh = [] \<or> wordBoundaryTest nextCh)
                        in if nextBoundary then 520 else 450))
                  else if boundary then (if exact then 410 else 380)
                  else if \<not> exact then 280
                  else 0)
             | None \<Rightarrow>
                 if tags \<noteq> [] \<and> haystackIncludesTerm tags term then (if exact then 200 else 160)
                 else if path \<noteq> [] then
                   (case indexOf path v of
                      Some pathIdx \<Rightarrow>
                        (let boundary = hasWordBoundary path pathIdx len in
                         if boundary \<or> \<not> exact then (if exact then 140 else 120) else 0)
                    | None \<Rightarrow> 0)
                 else 0))
     | _ \<Rightarrow> 0)"

definition itemNameRoot :: "jsrecord \<Rightarrow> string" where
  "itemNameRoot item =
     stripExtension (toLowerCase (toStr (jsOr (item ''filename'') (JString []))))"

definition itemDisplayName :: "jsrecord \<Rightarrow> string" where
  "itemDisplayName item =
     toLowerCase (toStr (jsOr (item ''display_name'') (jsOr (item ''displayName'') (JString []))))"

definition itemPath :: "jsrecord \<Rightarrow> string" where
  "itemPath item =
     toLowerCase (toStr (jsOr (item ''path'') (jsOr (item ''file_path'') (JString []))))"

definition itemTags :: "jsrecord \<Rightarrow> string" where
  "itemTags item =
     (case item ''tags'' of
        JArray xs \<Rightarrow> toLowerCase (joinWith '' '' xs)
      | v \<Rightarrow> toLowerCase (toStr (jsOr v (JString []))))"

definition scoreMatch :: "jsrecord \<Rightarrow> node option \<Rightarrow> nat" where
  "scoreMatch item ast =
    (let nameRoot = itemNameRoot item;
         displayName = itemDisplayName item;
         path = itemPath item;
         tags = itemTags item;
         terms = (case ast of None \<Rightarrow> [] | Some n \<Rightarrow> collectPositiveTerms n [] False)
     in if terms = [] then 0
        else foldl (\<lambda>score term. score + scoreTerm nameRoot displayName path tags term) 0 terms)"

section \<open>The two entry points\<close>

definition matches :: "jsrecord \<Rightarrow> string \<Rightarrow> bool option" where
  "matches item query =
    (if query = [] then Some True
     else
       let tokens = tokenizeQuery query in
       if tokens = [] then Some True
       else (case parseQueryAST tokens of
               None \<Rightarrow> None
             | Some None \<Rightarrow> Some True
             | Some (Some ast) \<Rightarrow> Some (evaluateExpression (Some ast) (buildHaystack item))))"

text \<open>
  \<^verbatim>\<open>Array.prototype.sort\<close> with a comparator is stable and, for a consistent
  comparator, returns the sorted arrangement: an insertion sort that puts an element
  before the first one it does not follow.
\<close>

fun insertBy :: "('a \<Rightarrow> 'a \<Rightarrow> int) \<Rightarrow> 'a \<Rightarrow> 'a list \<Rightarrow> 'a list" where
  "insertBy cmp x [] = [x]"
| "insertBy cmp x (y # ys) = (if cmp x y \<le> 0 then x # y # ys else y # insertBy cmp x ys)"

definition sortBy :: "('a \<Rightarrow> 'a \<Rightarrow> int) \<Rightarrow> 'a list \<Rightarrow> 'a list" where
  "sortBy cmp xs = foldr (insertBy cmp) xs []"

text \<open>
  The comparator \<^verbatim>\<open>(a, b) => (b.score - a.score) || displayKey(a.item).localeCompare(displayKey(b.item))\<close>
  on rows \<open>(item, score)\<close>.  \<^verbatim>\<open>String.prototype.localeCompare\<close> belongs to the host and
  is the parameter \<open>localeCompare\<close>.
\<close>

definition compareRows ::
  "(string \<Rightarrow> string \<Rightarrow> int) \<Rightarrow> jsrecord \<times> nat \<Rightarrow> jsrecord \<times> nat \<Rightarrow> int" where
  "compareRows localeCompare a b =
    (let d = int (snd b) - int (snd a)
     in if d \<noteq> 0 then d else localeCompare (displayKey (fst a)) (displayKey (fst b)))"

definition NexusSearchManager_filter ::
  "(string \<Rightarrow> string \<Rightarrow> int) \<Rightarrow> jsrecord list \<Rightarrow> string \<Rightarrow> jsrecord list option" where
  "NexusSearchManager_filter localeCompare items query =
    (let q = trim query in
     if q = [] then Some items
     else
       let tokens = tokenizeQuery q in
       if tokens = [] then Some items
       else (case parseQueryAST tokens of
               None \<Rightarrow> None
             | Some None \<Rightarrow> Some items
             | Some (Some ast) \<Rightarrow>
                 (let filtered =
                        filter (\<lambda>row. evaluateExpression (Some ast) (snd row))
                          (map (\<lambda>item. (item, buildHaystack item)) items)
                  in if filtered = [] then Some []
                     else Some (map fst
                       (sortBy (compareRows localeCompare)
                         (map (\<lambda>row. (fst row, scoreMatch (fst row) (Some ast))) filtered))))))"

section \<open>Notions used in the properties\<close>

text \<open>The object \<^verbatim>\<open>{}\<close>.\<close>

definition emptyRecord :: jsrecord where
  "emptyRecord = (\<lambda>_. JUndefined)"

text \<open>
  A call of the parser returns, and leaves a cursor that is not behind the one it was
  given; \<open>strict\<close> adds that it moved past at least one token when there was one.
\<close>

definition returnsOn :: "bool \<Rightarrow> (node option \<times> token list) option \<Rightarrow> token list \<Rightarrow> bool" where
  "returnsOn strict res ts \<longleftrightarrow>
     (case res of None \<Rightarrow> False
      | Some (r, ts') \<Rightarrow> length ts' \<le> length ts \<and> (strict \<and> ts \<noteq> [] \<longrightarrow> length ts' < length ts))"

text \<open>
  What \<^verbatim>\<open>sort\<close> needs of its comparator to return a sorted arrangement: any two
  elements are comparable one way or the other, and "does not follow" is transitive.
\<close>

definition consistentComparator :: "('a \<Rightarrow> 'a \<Rightarrow> int) \<Rightarrow> bool" where
  "consistentComparator cmp \<longleftrightarrow>
     (\<forall>a b. cmp a b \<le> 0 \<or> cmp b a \<le> 0)
     \<and> (\<forall>a b c. cmp a b \<le> 0 \<and> cmp b c \<le> 0 \<longrightarrow> cmp a c \<le> 0)"

text \<open>
  A comparator to stand for the host's \<^verbatim>\<open>localeCompare\<close> in examples: the
  order of the lowercased strings, code unit by code unit.
\<close>

definition compareLowercase :: "string \<Rightarrow> string \<Rightarrow> int" where
  "compareLowercase a b =
    (let x = toLowerCase a; y = toLowerCase b in if x < y then - 1 else if x = y then 0 else 1)"

text \<open>The records a tree keeps, and the rows \<^verbatim>\<open>{ item, score }\<close> made of them.\<close>

definition matching :: "node \<Rightarrow> jsrecord list \<Rightarrow> jsrecord list" where
  "matching ast rs = filter (\<lambda>r. evalNode ast (buildHaystack r)) rs"

definition scoredRows :: "node \<Rightarrow> jsrecord list \<Rightarrow> (jsrecord \<times> nat) list" where
  "scoredRows ast rs = map (\<lambda>r. (r, scoreMatch r (Some ast))) rs"

text \<open>The records of the examples.\<close>

definition fileRecord :: "string \<Rightarrow> jsrecord" where
  "fileRecord name = emptyRecord(''filename'' := JString name)"

text \<open>
  A plain term: one lexeme of the scan (no white space or parenthesis, and no opening
  quote that a later quote of its kind closes) that carries no leading dash and is not
  one of the keywords.
\<close>

definition plainTerm :: "string \<Rightarrow> bool" where
  "plainTerm t \<longleftrightarrow>
     t \<noteq> [] \<and> list_all isRunChar t \<and> hd t \<noteq> DASH
     \<and> \<not> ((hd t = SQ \<or> hd t = DQ) \<and> hd t \<in> set (tl t))
     \<and> toLowerCase t \<noteq> ''and'' \<and> toLowerCase t \<noteq> ''or'' \<and> toLowerCase t \<noteq> ''not''"

text \<open>The letters, the keyword lexemes in any casing, and the operator token of a keyword.\<close>

definition isLetter :: "char \<Rightarrow> bool" where
  "isLetter c \<longleftrightarrow> (let n = (of_char c :: nat) in (65 \<le> n \<and> n \<le> 90) \<or> (97 \<le> n \<and> n \<le> 122))"

definition isKeyword :: "string \<Rightarrow> bool" where
  "isKeyword kw \<longleftrightarrow> toLowerCase kw = ''and'' \<or> toLowerCase kw = ''or'' \<or> toLowerCase kw = ''not''"

definition keywordToken :: "string \<Rightarrow> token" where
  "keywordToken kw = (if toLowerCase kw = ''and'' then AND else if toLowerCase kw = ''or'' then OR else NOT)"

text \<open>
  The haystack in the words of the specification: each text field or the empty string,
  the two literal concatenations, and the tags as their space-joined array or the raw
  string, joined by single spaces in the stated order and lowercased.  \<open>textRecord\<close>
  says that the text fields hold strings or are absent, and the tags a string, an
  array or nothing.
\<close>

definition spec_textField :: "jsrecord \<Rightarrow> string \<Rightarrow> string" where
  "spec_textField r k = (case r k of JString s \<Rightarrow> s | _ \<Rightarrow> [])"

definition spec_tagsText :: "jsrecord \<Rightarrow> string" where
  "spec_tagsText r =
     (case r ''tags'' of JArray xs \<Rightarrow> joinWith '' '' xs | JString s \<Rightarrow> s | _ \<Rightarrow> [])"

definition spec_haystack :: "jsrecord \<Rightarrow> string" where
  "spec_haystack r =
     toLowerCase (joinWith '' ''
       [spec_textField r ''display_name'',
        spec_textField r ''filename'',
        spec_textField r ''path'',
        ''s'' @ toStr (r ''scale'') @ ''x'',
        toStr (r ''grid_width'') @ ''x'' @ toStr (r ''grid_height''),
        spec_textField r ''size'',
        spec_textField r ''creature_type'',
        spec_textField r ''variant'',
        spec_textField r ''source'',
        spec_textField r ''tier'',
        spec_textField r ''color_variant'',
        spec_tagsText r])"

definition textOrAbsent :: "jsval \<Rightarrow> bool" where
  "textOrAbsent v \<longleftrightarrow> (case v of JString s \<Rightarrow> True | JUndefined \<Rightarrow> True | JNull \<Rightarrow> True | _ \<Rightarrow> False)"

definition textRecord :: "jsrecord \<Rightarrow> bool" where
  "textRecord r \<longleftrightarrow>
     list_all (\<lambda>k. textOrAbsent (r k))
       [''display_name'', ''filename'', ''path'', ''size'', ''creature_type'', ''variant'',
        ''source'', ''tier'', ''color_variant'']
     \<and> (case r ''tags'' of JNumber n \<Rightarrow> False | _ \<Rightarrow> True)"

section \<open>The store\<close>

text \<open>
  To speak of what a call leaves unchanged, the caller's objects live in a store: a
  list of cells addressed by position.  A record is an \<open>Obj\<close> cell, the array of
  records an \<open>Arr\<close> cell of addresses.  Every \<^verbatim>\<open>map\<close> and \<^verbatim>\<open>filter\<close> of
  \<open>filter\<close> allocates a new array (\<open>Rows\<close> for the \<^verbatim>\<open>{ item, haystack }\<close> rows,
  \<open>Scored\<close> for the \<^verbatim>\<open>{ item, score }\<close> rows), \<^verbatim>\<open>sort\<close> rewrites the array it is
  called on, and \<^verbatim>\<open>return []\<close> allocates an empty array.  Reading a record through
  an address that holds none gives the empty object, as \<^verbatim>\<open>item?.\<close> does.
\<close>

type_synonym addr = nat

datatype cell =
    Obj jsrecord
  | Arr "addr list"
  | Rows "(addr \<times> string) list"
  | Scored "(addr \<times> nat) list"

type_synonym heap = "cell list"

definition alloc :: "heap \<Rightarrow> cell \<Rightarrow> addr \<times> heap" where
  "alloc h c = (length h, h @ [c])"

definition readObj :: "heap \<Rightarrow> addr \<Rightarrow> jsrecord" where
  "readObj h a = (if a < length h then (case h ! a of Obj r \<Rightarrow> r | _ \<Rightarrow> emptyRecord) else emptyRecord)"

definition readArr :: "heap \<Rightarrow> addr \<Rightarrow> addr list" where
  "readArr h a = (if a < length h then (case h ! a of Arr xs \<Rightarrow> xs | _ \<Rightarrow> []) else [])"

definition readRows :: "heap \<Rightarrow> addr \<Rightarrow> (addr \<times> string) list" where
  "readRows h a = (if a < length h then (case h ! a of Rows xs \<Rightarrow> xs | _ \<Rightarrow> []) else [])"

definition readScored :: "heap \<Rightarrow> addr \<Rightarrow> (addr \<times> nat) list" where
  "readScored h a = (if a < length h then (case h ! a of Scored xs \<Rightarrow> xs | _ \<Rightarrow> []) else [])"

definition compareRowsAt ::
  "heap \<Rightarrow> (string \<Rightarrow> string \<Rightarrow> int) \<Rightarrow> addr \<times> nat \<Rightarrow> addr \<times> nat \<Rightarrow> int" where
  "compareRowsAt h localeCompare a b =
     compareRows localeCompare (readObj h (fst a), snd a) (readObj h (fst b), snd b)"

definition filter_heap ::
  "(string \<Rightarrow> string \<Rightarrow> int) \<Rightarrow> heap \<Rightarrow> addr \<Rightarrow> string \<Rightarrow> (addr \<times> heap) option" where
  "filter_heap localeCompare h items query =
    (let q = trim query in
     if q = [] then Some (items, h)
     else
       let tokens = tokenizeQuery q in
       if tokens = [] then Some (items, h)
       else (case parseQueryAST tokens of
               None \<Rightarrow> None
             | Some None \<Rightarrow> Some (items, h)
             | Some (Some ast) \<Rightarrow>
                 (let (a1, h1) = alloc h (Rows (map (\<lambda>item. (item, buildHaystack (readObj h item)))
                                                 (readArr h items)));
                      (a2, h2) = alloc h1 (Rows (filter (\<lambda>row. evaluateExpression (Some ast) (snd row))
                                                   (readRows h1 a1)))
                  in if readRows h2 a2 = [] then Some (alloc h2 (Arr []))
                     else
                       let (a3, h3) = alloc h2 (Scored (map (\<lambda>row. (fst row,
                                                  scoreMatch (readObj h2 (fst row)) (Some ast)))
                                                (readRows h2 a2)));
                           h4 = h3[a3 := Scored (sortBy (compareRowsAt h3 localeCompare) (readScored h3 a3))]
                       in Some (alloc h4 (Arr (map fst (readScored h4 a3)))))))"

definition matches_heap :: "heap \<Rightarrow> addr \<Rightarrow> string \<Rightarrow> (bool \<times> heap) option" where
  "matches_heap h item query = map_option (\<lambda>b. (b, h)) (matches (readObj h item) query)"

text \<open>The contents of the three arrays \<open>filter\<close> allocates, in terms of the store it was given.\<close>

definition heapRows :: "heap \<Rightarrow> addr \<Rightarrow> (addr \<times> string) list" where
  "heapRows h items = map (\<lambda>item. (item, buildHaystack (readObj h item))) (readArr h items)"

definition heapKept :: "node \<Rightarrow> heap \<Rightarrow> addr \<Rightarrow> (addr \<times> string) list" where
  "heapKept ast h items = filter (\<lambda>row. evaluateExpression (Some ast) (snd row)) (heapRows h items)"

definition heapSorted ::
  "(string \<Rightarrow> string \<Rightarrow> int) \<Rightarrow> node \<Rightarrow> heap \<Rightarrow> addr \<Rightarrow> (addr \<times> nat) list" where
  "heapSorted lc ast h items =
     sortBy (compareRowsAt h lc)
       (map (\<lambda>row. (fst row, scoreMatch (readObj h (fst row)) (Some ast))) (heapKept ast h items))"

section \<open>The call stack\<close>















section \<open>Properties of the string primitives\<close>

lemma indexOfFrom_least:
  "indexOfFrom k s v = Some i \<Longrightarrow>
     k \<le> i \<and> i - k \<le> length s \<and> startsWith (drop (i - k) s) v
       \<and> (\<forall>j. j < i - k \<longrightarrow> \<not> startsWith (drop j s) v)"
proof (induction s arbitrary: k)
  case Nil
  then show ?case by (auto split: if_splits)
next
  case (Cons c cs)
  show ?case
  proof (cases "startsWith (c # cs) v")
    case True
    with Cons.prems show ?thesis by simp
  next
    case False
    with Cons.prems have rec: "indexOfFrom (Suc k) cs v = Some i" by simp
    from Cons.IH [OF rec] have a: "Suc k \<le> i" and b: "i - Suc k \<le> length cs"
      and c: "startsWith (drop (i - Suc k) cs) v"
      and d: "\<forall>j. j < i - Suc k \<longrightarrow> \<not> startsWith (drop j cs) v" by auto
    from a have e: "i - k = Suc (i - Suc k)" by simp
    have "\<not> startsWith (drop j (c # cs)) v" if "j < i - k" for j
    proof (cases j)
      case 0 with False show ?thesis by simp
    next
      case (Suc j') with that e d show ?thesis by simp
    qed
    with a b c e show ?thesis by simp
  qed
qed

lemma indexOf_least:
  "indexOf s v = Some i \<Longrightarrow>
     i \<le> length s \<and> startsWith (drop i s) v \<and> (\<forall>j<i. \<not> startsWith (drop j s) v)"
  using indexOfFrom_least [of 0 s v i] by (simp add: indexOf_def)

section \<open>The scorer looks at first occurrences only\<close>

text \<open>
  Claim C10.  For a positive term the scorer takes, in each of \<open>nameRoot\<close>,
  \<open>displayName\<close> and \<open>path\<close>, the index \<^verbatim>\<open>indexOf\<close> returns, which is the lowest
  index of an occurrence of the term's value, and what the field adds is decided by
  that index and by the word boundary at that occurrence, whatever occurrences follow.
  In the name field an occurrence with a boundary adds 1200 (exact) or 1100 at index 0
  and 950 or 750 further on; one without a boundary adds nothing for an exact term,
  and for a plain one 900 at index 0 and 500 further on.  The display name adds 560,
  520, 410, 380 with a boundary and nothing, 450, 280 without; the path 140 or 120 with
  a boundary and nothing or 120 without.  For the plain term \<open>cat\<close> and the file name
  \<open>scat cat.png\<close> the score is 500, although the occurrence at index 5 has a boundary on
  both sides; for the exact term \<open>cat\<close> and the file name \<open>catalog cat.png\<close> it is 0,
  and 900 for the plain term, although the occurrence at index 8 has a boundary on
  both sides.
\<close>

theorem scoreTerm_first_occurrence_only:
  "(v \<noteq> [] \<and> nameRoot \<noteq> v \<and> displayName \<noteq> v \<longrightarrow>
      (\<forall>i. indexOf nameRoot v = Some i \<longrightarrow>
            startsWith (drop i nameRoot) v \<and> (\<forall>j<i. \<not> startsWith (drop j nameRoot) v) \<and>
            scoreTerm nameRoot displayName path tags (TERMt v exact negated)
              = (if hasWordBoundary nameRoot i (length v)
                 then (if i = 0 then (if exact then 1200 else 1100) else (if exact then 950 else 750))
                 else (if exact then 0 else if i = 0 then 900 else 500)))
    \<and> (\<forall>i. indexOf nameRoot v = None \<and> indexOf displayName v = Some i \<longrightarrow>
            startsWith (drop i displayName) v \<and> (\<forall>j<i. \<not> startsWith (drop j displayName) v) \<and>
            scoreTerm nameRoot displayName path tags (TERMt v exact negated)
              = (if hasWordBoundary displayName i (length v)
                 then (if i = 0 then (if exact then 560 else 520) else (if exact then 410 else 380))
                 else (if exact then 0 else if i = 0 then 450 else 280)))
    \<and> (\<forall>i. indexOf nameRoot v = None \<and> indexOf displayName v = None
               \<and> \<not> (tags \<noteq> [] \<and> haystackIncludesTerm tags (TERMt v exact negated))
               \<and> indexOf path v = Some i \<longrightarrow>
            startsWith (drop i path) v \<and> (\<forall>j<i. \<not> startsWith (drop j path) v) \<and>
            scoreTerm nameRoot displayName path tags (TERMt v exact negated)
              = (if hasWordBoundary path i (length v) then (if exact then 140 else 120)
                 else (if exact then 0 else 120))))
   \<and> itemNameRoot (emptyRecord(''filename'' := JString ''scat cat.png'')) = ''scat cat''
   \<and> startsWith (drop 5 ''scat cat'') ''cat'' \<and> hasWordBoundary ''scat cat'' 5 3
   \<and> scoreMatch (emptyRecord(''filename'' := JString ''scat cat.png''))
        (Some (Term_node (TERMt ''cat'' False False))) = 500
   \<and> itemNameRoot (emptyRecord(''filename'' := JString ''catalog cat.png'')) = ''catalog cat''
   \<and> startsWith (drop 8 ''catalog cat'') ''cat'' \<and> hasWordBoundary ''catalog cat'' 8 3
   \<and> scoreMatch (emptyRecord(''filename'' := JString ''catalog cat.png''))
        (Some (Term_node (TERMt ''cat'' True False))) = 0
   \<and> scoreMatch (emptyRecord(''filename'' := JString ''catalog cat.png''))
        (Some (Term_node (TERMt ''cat'' False False))) = 900"
proof -
  have zero: "hasWordBoundary s 0 (length v) \<longleftrightarrow>
      (charAt s (length v) = [] \<or> wordBoundaryTest (charAt s (length v)))" for s
    by (simp add: hasWordBoundary_def Let_def)
  have name: "startsWith (drop i nameRoot) v \<and> (\<forall>j<i. \<not> startsWith (drop j nameRoot) v) \<and>
            scoreTerm nameRoot displayName path tags (TERMt v exact negated)
              = (if hasWordBoundary nameRoot i (length v)
                 then (if i = 0 then (if exact then 1200 else 1100) else (if exact then 950 else 750))
                 else (if exact then 0 else if i = 0 then 900 else 500))"
    if h: "v \<noteq> []" "nameRoot \<noteq> v" "displayName \<noteq> v" "indexOf nameRoot v = Some i" for i
  proof -
    from indexOf_least [OF h(4)] have l: "startsWith (drop i nameRoot) v"
      "\<forall>j<i. \<not> startsWith (drop j nameRoot) v" by simp_all
    from h zero [of nameRoot]
    have "scoreTerm nameRoot displayName path tags (TERMt v exact negated)
              = (if hasWordBoundary nameRoot i (length v)
                 then (if i = 0 then (if exact then 1200 else 1100) else (if exact then 950 else 750))
                 else (if exact then 0 else if i = 0 then 900 else 500))"
      by (simp add: scoreTerm_def Let_def)
    with l show ?thesis by simp
  qed
  have display: "startsWith (drop i displayName) v \<and> (\<forall>j<i. \<not> startsWith (drop j displayName) v) \<and>
            scoreTerm nameRoot displayName path tags (TERMt v exact negated)
              = (if hasWordBoundary displayName i (length v)
                 then (if i = 0 then (if exact then 560 else 520) else (if exact then 410 else 380))
                 else (if exact then 0 else if i = 0 then 450 else 280))"
    if h: "v \<noteq> []" "nameRoot \<noteq> v" "displayName \<noteq> v" "indexOf nameRoot v = None"
      "indexOf displayName v = Some i" for i
  proof -
    from indexOf_least [OF h(5)] have l: "startsWith (drop i displayName) v"
      "\<forall>j<i. \<not> startsWith (drop j displayName) v" by simp_all
    from h zero [of displayName]
    have "scoreTerm nameRoot displayName path tags (TERMt v exact negated)
              = (if hasWordBoundary displayName i (length v)
                 then (if i = 0 then (if exact then 560 else 520) else (if exact then 410 else 380))
                 else (if exact then 0 else if i = 0 then 450 else 280))"
      by (simp add: scoreTerm_def Let_def)
    with l show ?thesis by simp
  qed
  have path: "startsWith (drop i path) v \<and> (\<forall>j<i. \<not> startsWith (drop j path) v) \<and>
            scoreTerm nameRoot displayName path tags (TERMt v exact negated)
              = (if hasWordBoundary path i (length v) then (if exact then 140 else 120)
                 else (if exact then 0 else 120))"
    if h: "v \<noteq> []" "nameRoot \<noteq> v" "displayName \<noteq> v" "indexOf nameRoot v = None"
      "indexOf displayName v = None"
      "\<not> (tags \<noteq> [] \<and> haystackIncludesTerm tags (TERMt v exact negated))"
      "indexOf path v = Some i" for i
  proof -
    from indexOf_least [OF h(7)] have l: "startsWith (drop i path) v"
      "\<forall>j<i. \<not> startsWith (drop j path) v" by simp_all
    from h(1,7) have ne: "path \<noteq> []" by (auto simp: indexOf_def)
    from h ne
    have "scoreTerm nameRoot displayName path tags (TERMt v exact negated)
              = (if hasWordBoundary path i (length v) then (if exact then 140 else 120)
                 else (if exact then 0 else 120))"
      by (cases exact) (simp_all add: scoreTerm_def Let_def)
    with l show ?thesis by simp
  qed
  have general: "v \<noteq> [] \<and> nameRoot \<noteq> v \<and> displayName \<noteq> v \<longrightarrow>
      (\<forall>i. indexOf nameRoot v = Some i \<longrightarrow>
            startsWith (drop i nameRoot) v \<and> (\<forall>j<i. \<not> startsWith (drop j nameRoot) v) \<and>
            scoreTerm nameRoot displayName path tags (TERMt v exact negated)
              = (if hasWordBoundary nameRoot i (length v)
                 then (if i = 0 then (if exact then 1200 else 1100) else (if exact then 950 else 750))
                 else (if exact then 0 else if i = 0 then 900 else 500)))
    \<and> (\<forall>i. indexOf nameRoot v = None \<and> indexOf displayName v = Some i \<longrightarrow>
            startsWith (drop i displayName) v \<and> (\<forall>j<i. \<not> startsWith (drop j displayName) v) \<and>
            scoreTerm nameRoot displayName path tags (TERMt v exact negated)
              = (if hasWordBoundary displayName i (length v)
                 then (if i = 0 then (if exact then 560 else 520) else (if exact then 410 else 380))
                 else (if exact then 0 else if i = 0 then 450 else 280)))
    \<and> (\<forall>i. indexOf nameRoot v = None \<and> indexOf displayName v = None
               \<and> \<not> (tags \<noteq> [] \<and> haystackIncludesTerm tags (TERMt v exact negated))
               \<and> indexOf path v = Some i \<longrightarrow>
            startsWith (drop i path) v \<and> (\<forall>j<i. \<not> startsWith (drop j path) v) \<and>
            scoreTerm nameRoot displayName path tags (TERMt v exact negated)
              = (if hasWordBoundary path i (length v) then (if exact then 140 else 120)
                 else (if exact then 0 else 120)))"
    (is "?A \<longrightarrow> ?N \<and> ?D \<and> ?P")
  proof
    assume "?A"
    then have v: "v \<noteq> []" "nameRoot \<noteq> v" "displayName \<noteq> v" by simp_all
    have n: "?N" by (intro allI impI, rule name [OF v], assumption)
    have d: "?D" by (intro allI impI, elim conjE, rule display [OF v], assumption+)
    have p: "?P" by (intro allI impI, elim conjE, rule path [OF v], assumption+)
    show "?N \<and> ?D \<and> ?P" by (rule conjI, fact n, rule conjI, fact d, fact p)
  qed
  have root: "itemNameRoot (emptyRecord(''filename'' := JString ''scat cat.png'')) = ''scat cat''"
    by (simp add: itemNameRoot_def stripExtension_def jsOr_def toLowerCase_def lowerChar_def)
  have later: "startsWith (drop 5 ''scat cat'') ''cat'' \<and> hasWordBoundary ''scat cat'' 5 3"
    by (simp add: hasWordBoundary_def charAt_def wordBoundaryTest_def isAlnum_def)
  have example: "scoreMatch (emptyRecord(''filename'' := JString ''scat cat.png''))
        (Some (Term_node (TERMt ''cat'' False False))) = 500"
  proof -
    have others: "itemDisplayName (emptyRecord(''filename'' := JString ''scat cat.png'')) = []
        \<and> itemPath (emptyRecord(''filename'' := JString ''scat cat.png'')) = []
        \<and> itemTags (emptyRecord(''filename'' := JString ''scat cat.png'')) = []"
      by (simp add: itemDisplayName_def itemPath_def itemTags_def emptyRecord_def jsOr_def
          toLowerCase_def)
    show ?thesis
      by (simp add: scoreMatch_def root others scoreTerm_def indexOf_def
          hasWordBoundary_def charAt_def wordBoundaryTest_def isAlnum_def)
  qed
  have root0: "itemNameRoot (emptyRecord(''filename'' := JString ''catalog cat.png'')) = ''catalog cat''"
    by (simp add: itemNameRoot_def stripExtension_def jsOr_def toLowerCase_def lowerChar_def)
  have later0: "startsWith (drop 8 ''catalog cat'') ''cat'' \<and> hasWordBoundary ''catalog cat'' 8 3"
    by (simp add: hasWordBoundary_def charAt_def wordBoundaryTest_def isAlnum_def)
  have others0: "itemDisplayName (emptyRecord(''filename'' := JString ''catalog cat.png'')) = []
        \<and> itemPath (emptyRecord(''filename'' := JString ''catalog cat.png'')) = []
        \<and> itemTags (emptyRecord(''filename'' := JString ''catalog cat.png'')) = []"
    by (simp add: itemDisplayName_def itemPath_def itemTags_def emptyRecord_def jsOr_def
        toLowerCase_def)
  have example0: "scoreMatch (emptyRecord(''filename'' := JString ''catalog cat.png''))
        (Some (Term_node (TERMt ''cat'' True False))) = 0"
    by (simp add: scoreMatch_def root0 others0 scoreTerm_def indexOf_def
        hasWordBoundary_def charAt_def wordBoundaryTest_def isAlnum_def)
  have example1: "scoreMatch (emptyRecord(''filename'' := JString ''catalog cat.png''))
        (Some (Term_node (TERMt ''cat'' False False))) = 900"
    by (simp add: scoreMatch_def root0 others0 scoreTerm_def indexOf_def
        hasWordBoundary_def charAt_def wordBoundaryTest_def isAlnum_def)
  from general root later example root0 later0 example0 example1 show ?thesis by blast
qed

theorem scoreTerm_first_occurrence_only_witness:
  "indexOf ''scat cat'' ''cat'' = Some 1 \<and> \<not> hasWordBoundary ''scat cat'' 1 3
   \<and> scoreTerm ''scat cat'' [] [] [] (TERMt ''cat'' False False) = 500
   \<and> indexOf ''catalog cat'' ''cat'' = Some 0 \<and> \<not> hasWordBoundary ''catalog cat'' 0 3
   \<and> scoreTerm ''catalog cat'' [] [] [] (TERMt ''cat'' True False) = 0
   \<and> scoreTerm ''catalog cat'' [] [] [] (TERMt ''cat'' False False) = 900
   \<and> indexOf ''xy'' ''cat'' = None \<and> indexOf ''tomcat cat'' ''cat'' = Some 3
   \<and> \<not> hasWordBoundary ''tomcat cat'' 3 3
   \<and> scoreTerm ''xy'' ''tomcat cat'' [] [] (TERMt ''cat'' False False) = 280
   \<and> scoreTerm ''xy'' ''catalog cat'' [] [] (TERMt ''cat'' True False) = 0
   \<and> scoreTerm ''xy'' ''catalog cat'' [] [] (TERMt ''cat'' False False) = 450
   \<and> indexOf ''a/bcat/cat'' ''cat'' = Some 3 \<and> \<not> hasWordBoundary ''a/bcat/cat'' 3 3
   \<and> scoreTerm ''xy'' ''zz'' ''a/bcat/cat'' [] (TERMt ''cat'' True False) = 0"
  using scoreTerm_first_occurrence_only [of "''cat''" "''scat cat''" "[]" "[]" "[]" False False]
    scoreTerm_first_occurrence_only [of "''cat''" "''catalog cat''" "[]" "[]" "[]" True False]
    scoreTerm_first_occurrence_only [of "''cat''" "''catalog cat''" "[]" "[]" "[]" False False]
    scoreTerm_first_occurrence_only [of "''cat''" "''xy''" "''tomcat cat''" "[]" "[]" False False]
    scoreTerm_first_occurrence_only [of "''cat''" "''xy''" "''catalog cat''" "[]" "[]" True False]
    scoreTerm_first_occurrence_only [of "''cat''" "''xy''" "''catalog cat''" "[]" "[]" False False]
    scoreTerm_first_occurrence_only [of "''cat''" "''xy''" "''zz''" "''a/bcat/cat''" "[]" True False]
  by (simp add: indexOf_def hasWordBoundary_def charAt_def wordBoundaryTest_def isAlnum_def)

section \<open>The parser returns\<close>

lemma returnsOnE:
  assumes "returnsOn strict res ts"
  obtains r ts' where "res = Some (r, ts')" "length ts' \<le> length ts"
    "strict \<Longrightarrow> ts \<noteq> [] \<Longrightarrow> length ts' < length ts"
  using assms by (auto simp: returnsOn_def split: option.splits)

lemma returnsOnI:
  "res = Some (r, ts') \<Longrightarrow> length ts' \<le> length ts \<Longrightarrow> (strict \<Longrightarrow> ts \<noteq> [] \<Longrightarrow> length ts' < length ts)
    \<Longrightarrow> returnsOn strict res ts"
  by (auto simp: returnsOn_def)

lemma parse_returns:
  "(\<forall>ts. 4 * length ts + 4 \<le> n \<longrightarrow> returnsOn True (parseOr n ts) ts)
 \<and> (\<forall>nd ts. 4 * length ts + 1 \<le> n \<longrightarrow> returnsOn False (parseOrLoop n nd ts) ts)
 \<and> (\<forall>ts. 4 * length ts + 3 \<le> n \<longrightarrow> returnsOn True (parseAnd n ts) ts)
 \<and> (\<forall>nd ts. 4 * length ts + 3 \<le> n \<or> (ts = [] \<and> 1 \<le> n) \<longrightarrow> returnsOn False (parseAndLoop n nd ts) ts)
 \<and> (\<forall>ts. 4 * length ts + 2 \<le> n \<longrightarrow> returnsOn True (parseUnary n ts) ts)
 \<and> (\<forall>ts. 4 * length ts + 1 \<le> n \<longrightarrow> returnsOn True (parsePrimary n ts) ts)"
proof (induction n)
  case 0
  show ?case by simp
next
  case (Suc n)
  then have ihOr: "\<And>ts. 4 * length ts + 4 \<le> n \<Longrightarrow> returnsOn True (parseOr n ts) ts"
    and ihOrLoop: "\<And>nd ts. 4 * length ts + 1 \<le> n \<Longrightarrow> returnsOn False (parseOrLoop n nd ts) ts"
    and ihAnd: "\<And>ts. 4 * length ts + 3 \<le> n \<Longrightarrow> returnsOn True (parseAnd n ts) ts"
    and ihAndLoop: "\<And>nd ts. 4 * length ts + 3 \<le> n \<or> (ts = [] \<and> 1 \<le> n) \<Longrightarrow> returnsOn False (parseAndLoop n nd ts) ts"
    and ihUnary: "\<And>ts. 4 * length ts + 2 \<le> n \<Longrightarrow> returnsOn True (parseUnary n ts) ts"
    and ihPrimary: "\<And>ts. 4 * length ts + 1 \<le> n \<Longrightarrow> returnsOn True (parsePrimary n ts) ts"
    by blast+
  have primary: "returnsOn True (parsePrimary (Suc n) ts) ts" if b: "4 * length ts + 1 \<le> Suc n" for ts
  proof (cases ts)
    case Nil
    then show ?thesis by (simp add: returnsOn_def)
  next
    case (Cons tok rest)
    show ?thesis
    proof (cases "tok = LPAREN")
      case True
      from b Cons have "4 * length rest + 4 \<le> n" by simp
      from ihOr [OF this] obtain r ts1 where r: "parseOr n rest = Some (r, ts1)"
        and l: "length ts1 \<le> length rest" by (rule returnsOnE)
      with Cons True show ?thesis
        by (cases ts1) (auto simp: returnsOn_def split: token.splits)
    next
      case False
      with Cons show ?thesis by (cases tok) (auto simp: returnsOn_def)
    qed
  qed
  have unary: "returnsOn True (parseUnary (Suc n) ts) ts" if b: "4 * length ts + 2 \<le> Suc n" for ts
  proof (cases ts)
    case Nil
    then show ?thesis by (simp add: returnsOn_def)
  next
    case (Cons tok rest)
    show ?thesis
    proof (cases "tok = NOT")
      case True
      from b Cons have "4 * length rest + 2 \<le> n" by simp
      from ihUnary [OF this] obtain r ts1 where r: "parseUnary n rest = Some (r, ts1)"
        and l: "length ts1 \<le> length rest" by (rule returnsOnE)
      with Cons True show ?thesis
        by (cases r) (auto simp: returnsOn_def)
    next
      case False
      from b have "4 * length ts + 1 \<le> n" by simp
      from ihPrimary [OF this] have "returnsOn True (parsePrimary n ts) ts" .
      with Cons False show ?thesis by (cases tok) auto
    qed
  qed
  have andLoop: "returnsOn False (parseAndLoop (Suc n) nd ts) ts"
    if b: "4 * length ts + 3 \<le> Suc n \<or> (ts = [] \<and> 1 \<le> Suc n)" for nd ts
  proof (cases ts)
    case Nil
    then show ?thesis by (simp add: returnsOn_def)
  next
    case (Cons tok rest)
    with b have b': "4 * length rest + 6 \<le> n" by simp
    have step: "returnsOn False
        (case parseUnary n us of None \<Rightarrow> None
          | Some (None, ts2) \<Rightarrow> Some (nd, ts2)
          | Some (Some r, ts2) \<Rightarrow> parseAndLoop n (combine nd (Some r) KAnd) ts2) ts"
      if us: "us = rest \<or> (us = ts \<and> (tok \<noteq> AND))" for us
    proof -
      from us b' Cons have "4 * length us + 2 \<le> n" by auto
      from ihUnary [OF this] obtain r ts1 where r: "parseUnary n us = Some (r, ts1)"
        and l: "length ts1 \<le> length us" and l': "us \<noteq> [] \<Longrightarrow> length ts1 < length us"
        by (rule returnsOnE) auto
      from us l l' Cons have l2: "length ts1 \<le> length rest" by auto
      show ?thesis
      proof (cases r)
        case None
        with r l2 Cons show ?thesis by (simp add: returnsOn_def)
      next
        case (Some x)
        from l2 b' have "4 * length ts1 + 3 \<le> n" by simp
        then have "returnsOn False (parseAndLoop n (combine nd (Some x) KAnd) ts1) ts1"
          using ihAndLoop by blast
        with r Some l2 Cons show ?thesis
          by (auto simp: returnsOn_def split: option.splits)
      qed
    qed
    show ?thesis
    proof (cases tok)
      case (TERMt v e ng)
      with step [of ts] Cons show ?thesis by simp
    next
      case AND
      with step [of rest] Cons show ?thesis by simp
    next
      case OR
      with Cons show ?thesis by (simp add: returnsOn_def)
    next
      case NOT
      with step [of ts] Cons show ?thesis by simp
    next
      case LPAREN
      with step [of ts] Cons show ?thesis by simp
    next
      case RPAREN
      with Cons show ?thesis by (simp add: returnsOn_def)
    qed
  qed
  have "and": "returnsOn True (parseAnd (Suc n) ts) ts" if b: "4 * length ts + 3 \<le> Suc n" for ts
  proof -
    from b have "4 * length ts + 2 \<le> n" by simp
    from ihUnary [OF this] obtain r ts1 where r: "parseUnary n ts = Some (r, ts1)"
      and l: "length ts1 \<le> length ts" and l': "ts \<noteq> [] \<Longrightarrow> length ts1 < length ts"
      by (rule returnsOnE) auto
    have "4 * length ts1 + 3 \<le> n \<or> (ts1 = [] \<and> 1 \<le> n)"
    proof (cases ts)
      case Nil
      with l b show ?thesis by simp
    next
      case (Cons a list)
      with l' b show ?thesis by simp
    qed
    from ihAndLoop [OF this] obtain r2 ts2 where r2: "parseAndLoop n r ts1 = Some (r2, ts2)"
      and l2: "length ts2 \<le> length ts1" by (rule returnsOnE)
    from r r2 l2 l l' show ?thesis by (auto simp: returnsOn_def)
  qed
  have orLoop: "returnsOn False (parseOrLoop (Suc n) nd ts) ts" if b: "4 * length ts + 1 \<le> Suc n" for nd ts
  proof (cases "\<exists>rest. ts = OR # rest")
    case True
    then obtain rest where ts: "ts = OR # rest" by blast
    with b have "4 * length rest + 3 \<le> n" by simp
    from ihAnd [OF this] obtain r ts1 where r: "parseAnd n rest = Some (r, ts1)"
      and l: "length ts1 \<le> length rest" by (rule returnsOnE)
    from l b ts have "4 * length ts1 + 1 \<le> n" by simp
    from ihOrLoop [OF this] obtain r2 ts2 where r2: "parseOrLoop n (combine nd r KOr) ts1 = Some (r2, ts2)"
      and l2: "length ts2 \<le> length ts1" by (rule returnsOnE)
    from ts r r2 l l2 show ?thesis by (simp add: returnsOn_def)
  next
    case False
    then show ?thesis
      by (cases ts) (auto simp: returnsOn_def split: token.splits)
  qed
  have or: "returnsOn True (parseOr (Suc n) ts) ts" if b: "4 * length ts + 4 \<le> Suc n" for ts
  proof -
    from b have "4 * length ts + 3 \<le> n" by simp
    from ihAnd [OF this] obtain r ts1 where r: "parseAnd n ts = Some (r, ts1)"
      and l: "length ts1 \<le> length ts" and l': "ts \<noteq> [] \<Longrightarrow> length ts1 < length ts"
      by (rule returnsOnE) auto
    from l b have "4 * length ts1 + 1 \<le> n" by simp
    from ihOrLoop [OF this] obtain r2 ts2 where r2: "parseOrLoop n r ts1 = Some (r2, ts2)"
      and l2: "length ts2 \<le> length ts1" by (rule returnsOnE)
    from r r2 l l' l2 show ?thesis by (auto simp: returnsOn_def)
  qed
  from primary unary andLoop "and" orLoop or show ?case by blast
qed

lemma parseQueryAST_returns: "\<exists>ast. parseQueryAST tokens = Some ast"
proof -
  have "returnsOn True (parseOr (4 * length tokens + 4) tokens) tokens"
    using parse_returns [of "4 * length tokens + 4"] by blast
  then show ?thesis by (auto simp: parseQueryAST_def returnsOn_def split: option.splits)
qed

section \<open>Trimming the query does not change its tokens\<close>

lemma isSpace_not_special: "isSpace c \<Longrightarrow> c \<noteq> LP \<and> c \<noteq> RP \<and> c \<noteq> SQ \<and> c \<noteq> DQ"
  by (auto simp: isSpace_def)





lemma rawTokens_paren: "c = LP \<or> c = RP \<Longrightarrow> rawTokens (c # cs) = [c] # rawTokens cs"
  by auto

lemma rawTokens_quoted:
  "(c = SQ \<or> c = DQ) \<and> c \<in> set cs \<Longrightarrow>
    rawTokens (c # cs) = (c # takeWhile (\<lambda>d. d \<noteq> c) cs @ [c]) # rawTokens (tl (dropWhile (\<lambda>d. d \<noteq> c) cs))"
  by auto

lemma rawTokens_space: "isSpace c \<Longrightarrow> rawTokens (c # cs) = rawTokens cs"
  by (auto dest: isSpace_not_special)

lemma rawTokens_run:
  "\<not> (c = LP \<or> c = RP) \<Longrightarrow> \<not> ((c = SQ \<or> c = DQ) \<and> c \<in> set cs) \<Longrightarrow> \<not> isSpace c \<Longrightarrow>
    rawTokens (c # cs) = (c # takeWhile isRunChar cs) # rawTokens (dropWhile isRunChar cs)"
  by auto




lemma tokenizeQuery_Nil: "tokenizeQuery [] = []"
  by (simp add: tokenizeQuery_def)


section \<open>The entry points return\<close>

text \<open>
  The functions written without the call stack return on every query.  What the stack
  adds is in the section on the call stack, at the end.
\<close>

lemma matches_returns: "\<exists>b. matches r q = Some b"
proof -
  obtain ast where ast: "parseQueryAST (tokenizeQuery q) = Some ast"
    using parseQueryAST_returns by blast
  then show ?thesis by (cases ast) (auto simp: matches_def Let_def)
qed





section \<open>Sorting\<close>

lemma consistent_compareLowercase: "consistentComparator compareLowercase"
  by (auto simp: consistentComparator_def compareLowercase_def Let_def split: if_splits)

lemma mset_insertBy: "mset (insertBy cmp x ys) = add_mset x (mset ys)"
  by (induction ys) auto

lemma mset_sortBy: "mset (sortBy cmp xs) = mset xs"
  by (induction xs) (auto simp: sortBy_def mset_insertBy)

lemma set_insertBy: "set (insertBy cmp x ys) = insert x (set ys)"
  by (induction ys) auto

lemma set_sortBy: "set (sortBy cmp xs) = set xs"
  by (induction xs) (auto simp: sortBy_def set_insertBy)

lemma sorted_insertBy:
  assumes "consistentComparator cmp" and "sorted_wrt (\<lambda>a b. cmp a b \<le> 0) ys"
  shows "sorted_wrt (\<lambda>a b. cmp a b \<le> 0) (insertBy cmp x ys)"
  using assms(2)
proof (induction ys)
  case Nil
  then show ?case by simp
next
  case (Cons y ys)
  from assms(1) have total: "\<And>a b. cmp a b \<le> 0 \<or> cmp b a \<le> 0"
    and trans: "\<And>a b c. cmp a b \<le> 0 \<Longrightarrow> cmp b c \<le> 0 \<Longrightarrow> cmp a c \<le> 0"
    unfolding consistentComparator_def by blast+
  show ?case
  proof (cases "cmp x y \<le> 0")
    case True
    with Cons.prems trans show ?thesis by auto
  next
    case False
    with total [of x y] have "cmp y x \<le> 0" by simp
    with False Cons show ?thesis by (auto simp: set_insertBy)
  qed
qed

lemma sorted_sortBy:
  "consistentComparator cmp \<Longrightarrow> sorted_wrt (\<lambda>a b. cmp a b \<le> 0) (sortBy cmp xs)"
  by (induction xs) (auto simp: sortBy_def sorted_insertBy)

lemma sortBy_sorted:
  "sorted_wrt (\<lambda>a b. cmp a b \<le> 0) xs \<Longrightarrow> sortBy cmp xs = xs"
proof (induction xs)
  case Nil
  then show ?case by (simp add: sortBy_def)
next
  case (Cons x xs)
  then have "sortBy cmp xs = xs" by simp
  then have "sortBy cmp (x # xs) = insertBy cmp x xs" by (simp add: sortBy_def)
  with Cons.prems show ?case by (cases xs) auto
qed

lemma consistent_compareRows:
  assumes "consistentComparator lc"
  shows "consistentComparator (compareRows lc)"
proof -
  from assms have total: "\<And>a b. lc a b \<le> 0 \<or> lc b a \<le> 0"
    and trans: "\<And>a b c. lc a b \<le> 0 \<Longrightarrow> lc b c \<le> 0 \<Longrightarrow> lc a c \<le> 0"
    unfolding consistentComparator_def by blast+
  have le: "compareRows lc a b \<le> 0 \<longleftrightarrow>
      snd b < snd a \<or> (snd a = snd b \<and> lc (displayKey (fst a)) (displayKey (fst b)) \<le> 0)" for a b
    by (auto simp: compareRows_def Let_def)
  show ?thesis
    unfolding consistentComparator_def le
    using total trans by (metis (no_types, lifting) less_trans linorder_neqE_nat)
qed

lemma parseQueryAST_Nil: "parseQueryAST [] = Some None"
  by (simp add: parseQueryAST_def numeral_eq_Suc)

lemma filter_nonnull:
  assumes "parseQueryAST (tokenizeQuery (trim q)) = Some (Some ast)"
  shows "NexusSearchManager_filter lc rs q =
           Some (map fst (sortBy (compareRows lc) (scoredRows ast (matching ast rs))))"
proof -
  from assms have toks: "tokenizeQuery (trim q) \<noteq> []"
    by (auto simp: parseQueryAST_Nil)
  then have q: "trim q \<noteq> []" by (auto simp: tokenizeQuery_Nil)
  have rows: "map (\<lambda>row. (fst row, scoreMatch (fst row) (Some ast)))
        (filter (\<lambda>row. evaluateExpression (Some ast) (snd row))
           (map (\<lambda>item. (item, buildHaystack item)) rs))
      = scoredRows ast (matching ast rs)"
    by (induction rs) (auto simp: scoredRows_def matching_def evaluateExpression_def)
  have empty: "filter (\<lambda>row. evaluateExpression (Some ast) (snd row))
           (map (\<lambda>item. (item, buildHaystack item)) rs) = [] \<longleftrightarrow> matching ast rs = []"
    by (induction rs) (auto simp: matching_def evaluateExpression_def)
  show ?thesis
    using assms toks q
    by (simp add: NexusSearchManager_filter_def Let_def rows empty scoredRows_def sortBy_def)
qed

lemma rows_roundtrip:
  "\<forall>x\<in>set xs. snd x = scoreMatch (fst x) (Some ast) \<Longrightarrow> scoredRows ast (map fst xs) = xs"
  by (induction xs) (auto simp: scoredRows_def)

lemma displayKey_cascade:
  "displayKey r =
     (if truthy (r ''display_name'') then toStr (r ''display_name'')
      else if truthy (r ''displayName'') then toStr (r ''displayName'')
      else if truthy (r ''filename'') then toStr (r ''filename'')
      else if truthy (r ''name'') then toStr (r ''name'')
      else [])"
  by (simp add: displayKey_def jsOr_def)

text \<open>
  Claim C3, amended.  When the trimmed query parses to a tree, and the host's
  \<^verbatim>\<open>localeCompare\<close> is a consistent comparator, \<open>filter\<close> returns the records
  the tree keeps, each as often as the input has it, ordered by score descending, and
  any two of equal score in ascending \<^verbatim>\<open>localeCompare\<close> order of their display
  keys.  The display key is the first truthy one of \<^verbatim>\<open>display_name\<close>,
  \<^verbatim>\<open>displayName\<close>, \<^verbatim>\<open>filename\<close> and \<^verbatim>\<open>name\<close>, else the empty string.
\<close>

theorem filter_sorts_matches:
  assumes lc: "consistentComparator lc"
    and ast: "parseQueryAST (tokenizeQuery (trim q)) = Some (Some ast)"
  shows "\<exists>res. NexusSearchManager_filter lc rs q = Some res
     \<and> mset res = mset (filter (\<lambda>r. evaluateExpression (Some ast) (buildHaystack r)) rs)
     \<and> sorted_wrt (\<lambda>a b. scoreMatch b (Some ast) < scoreMatch a (Some ast)
          \<or> (scoreMatch a (Some ast) = scoreMatch b (Some ast)
              \<and> lc (displayKey a) (displayKey b) \<le> 0)) res
     \<and> (\<forall>r. displayKey r =
           (if truthy (r ''display_name'') then toStr (r ''display_name'')
            else if truthy (r ''displayName'') then toStr (r ''displayName'')
            else if truthy (r ''filename'') then toStr (r ''filename'')
            else if truthy (r ''name'') then toStr (r ''name'')
            else []))"
proof -
  let ?rows = "sortBy (compareRows lc) (scoredRows ast (matching ast rs))"
  have res: "NexusSearchManager_filter lc rs q = Some (map fst ?rows)"
    by (rule filter_nonnull [OF ast])
  have "mset (map fst ?rows) = image_mset fst (mset (scoredRows ast (matching ast rs)))"
    by (simp add: mset_sortBy)
  also have "\<dots> = mset (matching ast rs)"
    by (simp add: scoredRows_def image_mset.compositionality comp_def)
  finally have perm: "mset (map fst ?rows)
      = mset (filter (\<lambda>r. evaluateExpression (Some ast) (buildHaystack r)) rs)"
    by (simp add: matching_def evaluateExpression_def)
  have snd: "\<forall>x\<in>set ?rows. snd x = scoreMatch (fst x) (Some ast)"
    by (auto simp: set_sortBy scoredRows_def)
  have rt: "map (\<lambda>r. (r, scoreMatch r (Some ast))) (map fst ?rows) = ?rows"
    using rows_roundtrip [OF snd] by (simp only: scoredRows_def)
  have "sorted_wrt (\<lambda>a b. compareRows lc a b \<le> 0) ?rows"
    by (rule sorted_sortBy [OF consistent_compareRows [OF lc]])
  then have "sorted_wrt (\<lambda>a b. compareRows lc a b \<le> 0)
      (map (\<lambda>r. (r, scoreMatch r (Some ast))) (map fst ?rows))"
    by (simp only: rt)
  then have "sorted_wrt (\<lambda>a b. compareRows lc (a, scoreMatch a (Some ast)) (b, scoreMatch b (Some ast)) \<le> 0)
      (map fst ?rows)"
    by (simp only: sorted_wrt_map)
  then have "sorted_wrt (\<lambda>a b. scoreMatch b (Some ast) < scoreMatch a (Some ast)
          \<or> (scoreMatch a (Some ast) = scoreMatch b (Some ast)
              \<and> lc (displayKey a) (displayKey b) \<le> 0)) (map fst ?rows)"
    by (rule sorted_wrt_mono_rel [rotated]) (auto simp: compareRows_def Let_def split: if_splits)
  with res perm displayKey_cascade show ?thesis by blast
qed

theorem filter_sorts_matches_witness:
  "consistentComparator compareLowercase
   \<and> parseQueryAST (tokenizeQuery (trim ''goblin OR orc''))
       = Some (Some (Or_node (Term_node (TERMt ''goblin'' False False))
                             (Term_node (TERMt ''orc'' False False))))
   \<and> (\<exists>res. NexusSearchManager_filter compareLowercase
          [fileRecord ''orc.png'', fileRecord ''goblin.png'', fileRecord ''troll.png'']
          ''goblin OR orc'' = Some res
        \<and> map displayKey res = [''goblin.png'', ''orc.png''])"
proof -
  let ?ast = "Or_node (Term_node (TERMt ''goblin'' False False)) (Term_node (TERMt ''orc'' False False))"
  let ?rs = "[fileRecord ''orc.png'', fileRecord ''goblin.png'', fileRecord ''troll.png'']"
  have ast: "parseQueryAST (tokenizeQuery (trim ''goblin OR orc'')) = Some (Some ?ast)"
    by code_simp
  from filter_sorts_matches [OF consistent_compareLowercase ast, of ?rs]
  obtain res where res: "NexusSearchManager_filter compareLowercase ?rs ''goblin OR orc'' = Some res"
    by blast
  have "map_option (map displayKey) (NexusSearchManager_filter compareLowercase ?rs ''goblin OR orc'')
      = Some [''goblin.png'', ''orc.png'']"
    by code_simp
  with res have keys: "map displayKey res = [''goblin.png'', ''orc.png'']" by simp
  show ?thesis
  proof (intro conjI exI [of _ res])
  qed (fact consistent_compareLowercase ast res keys)+
qed

text \<open>
  The claim as first stated fails for a query that is not blank but has no tree: for
  the query \<open>-\<close> both records match, they score the same, and \<open>filter\<close> returns them
  in the order given, \<open>b.png\<close> before \<open>a.png\<close>.
\<close>

theorem filter_without_tree_keeps_order_counterexample:
  "trim ''-'' \<noteq> []
   \<and> matches (fileRecord ''b.png'') ''-'' = Some True
   \<and> matches (fileRecord ''a.png'') ''-'' = Some True
   \<and> NexusSearchManager_filter compareLowercase [fileRecord ''b.png'', fileRecord ''a.png''] ''-''
       = Some [fileRecord ''b.png'', fileRecord ''a.png'']
   \<and> scoreMatch (fileRecord ''b.png'') None = scoreMatch (fileRecord ''a.png'') None
   \<and> 0 < compareLowercase (displayKey (fileRecord ''b.png'')) (displayKey (fileRecord ''a.png''))"
proof -
  have t: "trim ''-'' = ''-''" by (simp add: trim_def isSpace_def)
  have toks: "tokenizeQuery ''-'' = []" by code_simp
  have key: "0 < compareLowercase (displayKey (fileRecord ''b.png'')) (displayKey (fileRecord ''a.png''))"
    by code_simp
  show ?thesis
    by (simp add: t toks key matches_def NexusSearchManager_filter_def scoreMatch_def)
qed

text \<open>
  Claim C8.  With a consistent \<^verbatim>\<open>localeCompare\<close>, filtering the list that
  \<open>filter\<close> returned, with the same query, returns that list again: the same records
  in the same order.
\<close>

theorem filter_idempotent:
  assumes lc: "consistentComparator lc"
  shows "\<exists>res. NexusSearchManager_filter lc rs q = Some res
           \<and> NexusSearchManager_filter lc res q = Some res"
proof -
  obtain a where a: "parseQueryAST (tokenizeQuery (trim q)) = Some a"
    using parseQueryAST_returns by blast
  show ?thesis
  proof (cases a)
    case None
    with a have "NexusSearchManager_filter lc xs q = Some xs" for xs
      by (simp add: NexusSearchManager_filter_def Let_def)
    then show ?thesis by simp
  next
    case (Some ast)
    with a have ast: "parseQueryAST (tokenizeQuery (trim q)) = Some (Some ast)" by simp
    let ?rows = "sortBy (compareRows lc) (scoredRows ast (matching ast rs))"
    let ?res = "map fst ?rows"
    have res: "NexusSearchManager_filter lc rs q = Some ?res"
      by (rule filter_nonnull [OF ast])
    have snd: "\<forall>x\<in>set ?rows. snd x = scoreMatch (fst x) (Some ast)"
      by (auto simp: set_sortBy scoredRows_def)
    have "\<forall>r\<in>set ?res. evalNode ast (buildHaystack r)"
      by (auto simp: set_sortBy scoredRows_def matching_def)
    then have "filter (\<lambda>r. evalNode ast (buildHaystack r)) ?res = ?res"
      by (rule filter_True)
    then have m: "matching ast ?res = ?res"
      by (simp only: matching_def [of ast ?res])
    have rt: "scoredRows ast ?res = ?rows"
      by (rule rows_roundtrip [OF snd])
    have "sorted_wrt (\<lambda>a b. compareRows lc a b \<le> 0) ?rows"
      by (rule sorted_sortBy [OF consistent_compareRows [OF lc]])
    then have "sortBy (compareRows lc) ?rows = ?rows"
      by (rule sortBy_sorted)
    then have "map fst (sortBy (compareRows lc) (scoredRows ast (matching ast ?res))) = ?res"
      by (simp only: m rt)
    then have "NexusSearchManager_filter lc ?res q = Some ?res"
      by (simp only: filter_nonnull [OF ast, of lc ?res])
    with res show ?thesis by blast
  qed
qed

theorem filter_idempotent_witness:
  "consistentComparator compareLowercase
   \<and> (\<exists>res. NexusSearchManager_filter compareLowercase
          [fileRecord ''orc.png'', fileRecord ''goblin.png'', fileRecord ''troll.png'']
          ''goblin OR orc'' = Some res
        \<and> NexusSearchManager_filter compareLowercase res ''goblin OR orc'' = Some res
        \<and> map displayKey res = [''goblin.png'', ''orc.png''])"
proof -
  let ?rs = "[fileRecord ''orc.png'', fileRecord ''goblin.png'', fileRecord ''troll.png'']"
  from filter_idempotent [OF consistent_compareLowercase, of ?rs "''goblin OR orc''"]
  obtain res where res: "NexusSearchManager_filter compareLowercase ?rs ''goblin OR orc'' = Some res"
    and again: "NexusSearchManager_filter compareLowercase res ''goblin OR orc'' = Some res"
    by blast
  have "map_option (map displayKey) (NexusSearchManager_filter compareLowercase ?rs ''goblin OR orc'')
      = Some [''goblin.png'', ''orc.png'']"
    by code_simp
  with res have keys: "map displayKey res = [''goblin.png'', ''orc.png'']" by simp
  show ?thesis
  proof (intro conjI exI [of _ res])
  qed (fact consistent_compareLowercase res again keys)+
qed

section \<open>Exact and plain terms\<close>

lemma startsWith_iff: "startsWith s v \<longleftrightarrow> (\<exists>post. s = v @ post)"
  by (induction s v rule: startsWith.induct) auto

lemma rxTail_iff: "rxTail s \<longleftrightarrow> s = [] \<or> \<not> isAlnum (hd s)"
  by (cases s) (auto simp: rxTail_def)

lemma rxAt_iff:
  "rxAt atStart v s \<longleftrightarrow>
     (atStart \<and> (\<exists>post. s = v @ post \<and> rxTail post))
     \<or> (\<exists>c post. s = c # v @ post \<and> \<not> isAlnum c \<and> rxTail post)"
  by (cases s) (auto simp: rxAt_def startsWith_iff)

lemma rxScan_iff:
  "rxScan atStart v s \<longleftrightarrow>
     (atStart \<and> (\<exists>post. s = v @ post \<and> rxTail post))
     \<or> (\<exists>pre c post. s = pre @ c # v @ post \<and> \<not> isAlnum c \<and> rxTail post)"
proof (induction s arbitrary: atStart)
  case Nil
  then show ?case by (auto simp: rxAt_iff)
next
  case (Cons a s)
  have "(\<exists>pre c post. a # s = pre @ c # v @ post \<and> \<not> isAlnum c \<and> rxTail post)
     \<longleftrightarrow> (\<exists>c post. a # s = c # v @ post \<and> \<not> isAlnum c \<and> rxTail post)
        \<or> (\<exists>pre c post. s = pre @ c # v @ post \<and> \<not> isAlnum c \<and> rxTail post)"
    (is "?L \<longleftrightarrow> ?A \<or> ?B")
  proof
    assume ?L
    then obtain pre c post where e: "a # s = pre @ c # v @ post" and c: "\<not> isAlnum c" "rxTail post"
      by blast
    show "?A \<or> ?B"
    proof (cases pre)
      case Nil
      with e c show ?thesis by auto
    next
      case (Cons p ps)
      with e have "s = ps @ c # v @ post" by simp
      with c show ?thesis by blast
    qed
  next
    assume "?A \<or> ?B"
    then show ?L
    proof
      assume ?A
      then obtain c post where "a # s = [] @ c # v @ post" "\<not> isAlnum c" "rxTail post" by auto
      then show ?L by blast
    next
      assume ?B
      then obtain pre c post where "s = pre @ c # v @ post" "\<not> isAlnum c" "rxTail post" by blast
      then have "a # s = (a # pre) @ c # v @ post" by simp
      with \<open>\<not> isAlnum c\<close> \<open>rxTail post\<close> show ?L by blast
    qed
  qed
  with Cons.IH [of False] show ?case by (auto simp: rxAt_iff)
qed

lemma exact_occurrence:
  "rxScan True v s \<longleftrightarrow>
     (\<exists>pre post. s = pre @ v @ post \<and> (pre = [] \<or> \<not> isAlnum (last pre))
                 \<and> (post = [] \<or> \<not> isAlnum (hd post)))"
  (is "?L \<longleftrightarrow> ?R")
proof
  assume ?L
  then consider post where "s = v @ post" "rxTail post"
    | pre c post where "s = pre @ c # v @ post" "\<not> isAlnum c" "rxTail post"
    unfolding rxScan_iff by blast
  then show ?R
  proof cases
    case 1
    then have "s = [] @ v @ post" by simp
    with 1 show ?thesis unfolding rxTail_iff by blast
  next
    case 2
    then have "s = (pre @ [c]) @ v @ post" "\<not> isAlnum (last (pre @ [c]))" by simp_all
    with 2 show ?thesis unfolding rxTail_iff by blast
  qed
next
  assume ?R
  then obtain pre post where s: "s = pre @ v @ post"
    and b: "pre = [] \<or> \<not> isAlnum (last pre)" and a: "rxTail post"
    unfolding rxTail_iff by blast
  show ?L
  proof (cases "pre = []")
    case True
    with s a show ?thesis unfolding rxScan_iff by auto
  next
    case False
    with b have "\<not> isAlnum (last pre)" by simp
    moreover from False s have "s = butlast pre @ last pre # v @ post" by simp
    ultimately show ?thesis using a unfolding rxScan_iff by blast
  qed
qed

lemma indexOfFrom_iff: "indexOfFrom k s v \<noteq> None \<longleftrightarrow> (\<exists>pre post. s = pre @ v @ post)"
proof (induction s arbitrary: k)
  case Nil
  then show ?case by simp
next
  case (Cons a s)
  have "(\<exists>pre post. a # s = pre @ v @ post)
      \<longleftrightarrow> (\<exists>post. a # s = v @ post) \<or> (\<exists>pre post. s = pre @ v @ post)" (is "?L \<longleftrightarrow> ?A \<or> ?B")
  proof
    assume ?L
    then obtain pre post where e: "a # s = pre @ v @ post" by blast
    show "?A \<or> ?B"
    proof (cases pre)
      case Nil
      with e show ?thesis by auto
    next
      case (Cons p ps)
      with e have "s = ps @ v @ post" by simp
      then show ?thesis by blast
    qed
  next
    assume "?A \<or> ?B"
    then show ?L
    proof
      assume ?A
      then obtain post where "a # s = [] @ v @ post" by auto
      then show ?L by blast
    next
      assume ?B
      then obtain pre post where "s = pre @ v @ post" by blast
      then have "a # s = (a # pre) @ v @ post" by simp
      then show ?L by blast
    qed
  qed
  with Cons.IH [of "Suc k"] show ?case by (auto simp: startsWith_iff)
qed

lemma includesStr_iff: "includesStr s v \<longleftrightarrow> (\<exists>pre post. s = pre @ v @ post)"
  using indexOfFrom_iff [of 0 s v] by (simp add: includesStr_def indexOf_def)


lemma rawTokens_quoted_query:
  assumes "q = SQ \<or> q = DQ" and "q \<notin> set v"
  shows "rawTokens (q # v @ [q]) = [q # v @ [q]]"
proof -
  have tw: "takeWhile (\<lambda>d. d \<noteq> q) (v @ [q]) = v"
    using assms(2) by (induction v) auto
  have dw: "dropWhile (\<lambda>d. d \<noteq> q) (v @ [q]) = [q]"
    using assms(2) by (induction v) auto
  have "(q = SQ \<or> q = DQ) \<and> q \<in> set (v @ [q])" using assms(1) by simp
  from rawTokens_quoted [OF this] show ?thesis by (simp add: tw dw)
qed

lemma trim_quoted:
  assumes "q = SQ \<or> q = DQ"
  shows "trim (q # v @ [q]) = q # v @ [q]"
  using assms by (auto simp: trim_def isSpace_def)

lemma tokenizeQuery_quoted:
  assumes q: "q = SQ \<or> q = DQ" and v: "q \<notin> set v" and ne: "toLowerCase (trim v) \<noteq> []"
  shows "tokenizeQuery (q # v @ [q]) = [TERMt (toLowerCase (trim v)) True False]"
proof -
  let ?tok = "q # v @ [q]"
  have fq: "fullyQuoted q ?tok" using v by (simp add: fullyQuoted_def)
  have peel: "peelParens [] False ?tok = ([], False, ?tok)" using q by auto
  have dd: "dropWhile (\<lambda>c. c = DASH) ?tok = ?tok" using q by auto
  have tp: "takeWhile (\<lambda>c. c = RP) (rev ?tok) = []" "dropWhile (\<lambda>c. c = RP) (rev ?tok) = rev ?tok"
    using q by auto
  have "tokenizeStep ([], False) ?tok = ([TERMt (toLowerCase (trim v)) True False], False)"
    unfolding tokenizeStep_def
    using q fq ne
    by (simp add: trim_quoted [OF q] Let_def) (auto simp: peel)
  then show ?thesis
    by (simp add: tokenizeQuery_def rawTokens_quoted_query [OF q v] del: rawTokens.simps)
qed

lemma parse_single_term:
  "parseQueryAST [TERMt v e False] = Some (Some (Term_node (TERMt v e False)))"
  by (simp add: parseQueryAST_def numeral_eq_Suc)

lemma parse_single_negated:
  "parseQueryAST [TERMt v e True] = Some (Some (Not_node (Term_node (TERMt v e True))))"
  by (simp add: parseQueryAST_def numeral_eq_Suc)

lemma matches_quoted:
  assumes q: "q = SQ \<or> q = DQ" and v: "q \<notin> set v" and ne: "toLowerCase (trim v) \<noteq> []"
  shows "matches r (q # v @ [q])
    = Some (haystackIncludesTerm (buildHaystack r) (TERMt (toLowerCase (trim v)) True False))"
  by (simp add: matches_def tokenizeQuery_quoted [OF q v ne] parse_single_term evaluateExpression_def)

lemma trim_id: "t \<noteq> [] \<Longrightarrow> \<not> isSpace (hd t) \<Longrightarrow> \<not> isSpace (last t) \<Longrightarrow> trim t = t"
proof -
  assume t: "t \<noteq> []" and h: "\<not> isSpace (hd t)" and l: "\<not> isSpace (last t)"
  from t h have a: "dropWhile isSpace t = t" by (cases t) auto
  from t l have "dropWhile isSpace (rev t) = rev t" by (cases "rev t") (auto simp: hd_rev [symmetric])
  with a show ?thesis by (simp add: trim_def)
qed

lemma peelParens_id: "t \<noteq> [] \<Longrightarrow> hd t \<noteq> LP \<Longrightarrow> peelParens toks ng t = (toks, ng, t)"
  by (cases t) auto

lemma no_trailing_parens:
  "t \<noteq> [] \<Longrightarrow> last t \<noteq> RP \<Longrightarrow>
     takeWhile (\<lambda>c. c = RP) (rev t) = [] \<and> dropWhile (\<lambda>c. c = RP) (rev t) = rev t"
  by (cases "rev t") (auto simp: hd_rev [symmetric])

lemma plainTerm_not_quoted:
  assumes "plainTerm t"
  shows "\<not> fullyQuoted SQ t \<and> \<not> fullyQuoted DQ t"
proof -
  have "hd t = q \<and> q \<in> set (tl t)" if "fullyQuoted q t" for q
  proof -
    from that have l: "2 \<le> length t" "last t = q" and h: "hd t = q" by (auto simp: fullyQuoted_def)
    from l have "tl t \<noteq> []" by (cases t) auto
    moreover from l have "last (tl t) = q" by (cases t) auto
    ultimately have "q \<in> set (tl t)" using last_in_set by metis
    with h show ?thesis by simp
  qed
  note k = this
  from assms have nq: "\<not> ((hd t = SQ \<or> hd t = DQ) \<and> hd t \<in> set (tl t))"
    by (simp add: plainTerm_def)
  show ?thesis
  proof (intro conjI notI)
    assume "fullyQuoted SQ t"
    from k [OF this] nq show False by simp
  next
    assume "fullyQuoted DQ t"
    from k [OF this] nq show False by simp
  qed
qed

lemma plainTerm_chars:
  assumes "plainTerm t"
  shows "t \<noteq> []" "\<not> isSpace (hd t)" "\<not> isSpace (last t)" "hd t \<noteq> LP" "hd t \<noteq> RP" "last t \<noteq> RP"
    "hd t \<noteq> DASH" "\<forall>c\<in>set (tl t). isRunChar c"
proof -
  from assms have t: "t \<noteq> []" and all: "\<forall>c\<in>set t. isRunChar c" and d: "hd t \<noteq> DASH"
    by (auto simp: plainTerm_def list_all_iff)
  from t have "hd t \<in> set t" "last t \<in> set t" by simp_all
  with all have "isRunChar (hd t)" "isRunChar (last t)" by blast+
  then show "\<not> isSpace (hd t)" "\<not> isSpace (last t)" "hd t \<noteq> LP" "hd t \<noteq> RP" "last t \<noteq> RP"
    by (auto simp: isRunChar_def)
  from all t show "\<forall>c\<in>set (tl t). isRunChar c" by (cases t) auto
  show "t \<noteq> []" "hd t \<noteq> DASH" by fact+
qed

lemma rawTokens_Nil: "rawTokens [] = []" by simp

lemma rawTokens_plainTerm:
  assumes "plainTerm t"
  shows "rawTokens t = [t]" and "rawTokens (DASH # t) = [DASH # t]"
proof -
  note c = plainTerm_chars [OF assms]
  from c(1) obtain h cs where t: "t = h # cs" by (cases t) auto
  from c t have h: "\<not> (h = LP \<or> h = RP)" "\<not> isSpace h" and cs: "\<forall>c\<in>set cs. isRunChar c" by auto
  from assms t have nq: "\<not> ((h = SQ \<or> h = DQ) \<and> h \<in> set cs)" by (simp add: plainTerm_def)
  from cs have tw: "takeWhile isRunChar cs = cs" "dropWhile isRunChar cs = []" by auto
  from rawTokens_run [OF h(1) nq h(2)] show "rawTokens t = [t]"
    by (simp only: t tw rawTokens_Nil)
  have d: "\<not> (DASH = LP \<or> DASH = RP)" "\<not> ((DASH = SQ \<or> DASH = DQ) \<and> DASH \<in> set t)" "\<not> isSpace DASH"
    by (auto simp: isSpace_def)
  from cs h t have "\<forall>c\<in>set t. isRunChar c" by (auto simp: isRunChar_def)
  then have tw': "takeWhile isRunChar t = t" "dropWhile isRunChar t = []" by auto
  from rawTokens_run [OF d] show "rawTokens (DASH # t) = [DASH # t]"
    by (simp only: tw' rawTokens_Nil)
qed

lemma tokenizeStep_plainTerm:
  assumes "plainTerm t"
  shows "tokenizeStep (toks, False) t = (toks @ [TERMt (toLowerCase t) False False], False)"
proof -
  note c = plainTerm_chars [OF assms]
  note nq = plainTerm_not_quoted [OF assms]
  from assms have kw: "toLowerCase t \<noteq> ''and''" "toLowerCase t \<noteq> ''or''" "toLowerCase t \<noteq> ''not''"
    by (auto simp: plainTerm_def)
  from c have nd: "t \<noteq> [DASH]" by auto
  from c have dd: "dropWhile (\<lambda>c. c = DASH) t = t" by (cases t) auto
  from c have ex: "\<exists>x\<in>set t. x \<noteq> RP" "\<exists>x\<in>set t. x \<noteq> DASH"
    using last_in_set [of t] hd_in_set [of t] by blast+
  show ?thesis
    unfolding tokenizeStep_def
    using c(1) nd nq kw c(7) ex
    by (simp add: trim_id [OF c(1) c(2) c(3)] dd peelParens_id [OF c(1) c(4)]
        no_trailing_parens [OF c(1) c(6)] Let_def)
qed

lemma tokenizeStep_dash_plainTerm:
  assumes "plainTerm t" and "2 \<le> length t"
  shows "tokenizeStep (toks, False) (DASH # t) = (toks @ [TERMt (toLowerCase t) False True], False)"
proof -
  note c = plainTerm_chars [OF assms(1)]
  note nq = plainTerm_not_quoted [OF assms(1)]
  from c have tr: "trim (DASH # t) = DASH # t"
    by (intro trim_id) (auto simp: isSpace_def)
  from c have dd: "dropWhile (\<lambda>c. c = DASH) t = t" by (cases t) auto
  from c have ex: "\<exists>x\<in>set t. x \<noteq> RP" "\<exists>x\<in>set t. x \<noteq> DASH"
    using last_in_set [of t] hd_in_set [of t] by blast+
  from assms(2) have len: "\<not> length (toLowerCase t) < 2" by (simp add: toLowerCase_def)
  show ?thesis
    unfolding tokenizeStep_def
    using c(1) nq len ex
    by (simp add: tr dd peelParens_id [OF c(1) c(4)] no_trailing_parens [OF c(1) c(6)] Let_def)
qed

lemma tokenizeQuery_plainTerm:
  assumes "plainTerm t"
  shows "tokenizeQuery t = [TERMt (toLowerCase t) False False]"
  by (simp add: tokenizeQuery_def rawTokens_plainTerm(1) [OF assms] tokenizeStep_plainTerm [OF assms]
      del: rawTokens.simps)

lemma tokenizeQuery_dash_plainTerm:
  assumes "plainTerm t" and "2 \<le> length t"
  shows "tokenizeQuery (DASH # t) = [TERMt (toLowerCase t) False True]"
  by (simp add: tokenizeQuery_def rawTokens_plainTerm(2) [OF assms(1)]
      tokenizeStep_dash_plainTerm [OF assms] del: rawTokens.simps)

lemma matches_plainTerm:
  assumes "plainTerm t"
  shows "matches r t = Some (includesStr (buildHaystack r) (toLowerCase t))"
proof -
  from assms have "t \<noteq> []" by (simp add: plainTerm_def)
  then show ?thesis
    by (simp add: matches_def tokenizeQuery_plainTerm [OF assms] parse_single_term
        evaluateExpression_def haystackIncludesTerm_def toLowerCase_def)
qed

lemma matches_dash_plainTerm:
  assumes "plainTerm t" and "2 \<le> length t"
  shows "matches r (DASH # t) = Some (\<not> includesStr (buildHaystack r) (toLowerCase t))"
proof -
  from assms have "t \<noteq> []" by (simp add: plainTerm_def)
  then show ?thesis
    by (simp add: matches_def tokenizeQuery_dash_plainTerm [OF assms] parse_single_negated
        evaluateExpression_def haystackIncludesTerm_def toLowerCase_def)
qed

lemma matches_single_term:
  assumes "tokenizeQuery q = [TERMt v e False]"
  shows "matches r q = Some (haystackIncludesTerm (buildHaystack r) (TERMt v e False))"
proof -
  from assms have "q \<noteq> []" by (auto simp: tokenizeQuery_Nil)
  with assms show ?thesis
    by (simp add: matches_def parse_single_term evaluateExpression_def)
qed

text \<open>
  Claim C4.  An exact term is found in a haystack exactly when its value occurs there
  with the string edge or a character outside \<^verbatim>\<open>[a-z0-9]\<close> on either side; a term
  that is not exact is found exactly when its value occurs at all.  A query that is one
  term is matched by that test on the record's haystack.  A query that is one quoted
  span is the exact term of the trimmed, lowercased text between the quotes, and a plain
  word is a term that is not exact.  So \<^verbatim>\<open>'cat'\<close> does not match the file name
  \<open>catalog.png\<close> and matches \<open>cat.png\<close>.
\<close>

theorem exact_term_matches_whole_words:
  "(haystackIncludesTerm hay (TERMt v True ng) \<longleftrightarrow>
      v \<noteq> [] \<and> (\<exists>pre post. hay = pre @ v @ post \<and> (pre = [] \<or> \<not> isAlnum (last pre))
                      \<and> (post = [] \<or> \<not> isAlnum (hd post))))
   \<and> (haystackIncludesTerm hay (TERMt v False ng) \<longleftrightarrow>
      v \<noteq> [] \<and> (\<exists>pre post. hay = pre @ v @ post))
   \<and> (tokenizeQuery query = [TERMt u e False] \<longrightarrow>
        matches r query = Some (haystackIncludesTerm (buildHaystack r) (TERMt u e False)))
   \<and> ((q = SQ \<or> q = DQ) \<and> q \<notin> set w \<and> toLowerCase (trim w) \<noteq> [] \<longrightarrow>
        tokenizeQuery (q # w @ [q]) = [TERMt (toLowerCase (trim w)) True False])
   \<and> (plainTerm t \<longrightarrow> tokenizeQuery t = [TERMt (toLowerCase t) False False])
   \<and> matches (fileRecord ''catalog.png'') [SQ, CHR ''c'', CHR ''a'', CHR ''t'', SQ] = Some False
   \<and> matches (fileRecord ''cat.png'') [SQ, CHR ''c'', CHR ''a'', CHR ''t'', SQ] = Some True"
proof -
  have exact: "haystackIncludesTerm hay (TERMt v True ng) \<longleftrightarrow>
      v \<noteq> [] \<and> (\<exists>pre post. hay = pre @ v @ post \<and> (pre = [] \<or> \<not> isAlnum (last pre))
                      \<and> (post = [] \<or> \<not> isAlnum (hd post)))"
    by (simp add: haystackIncludesTerm_def exact_occurrence)
  have plain: "haystackIncludesTerm hay (TERMt v False ng) \<longleftrightarrow>
      v \<noteq> [] \<and> (\<exists>pre post. hay = pre @ v @ post)"
    by (simp add: haystackIncludesTerm_def includesStr_iff)
  have single: "tokenizeQuery query = [TERMt u e False] \<longrightarrow>
        matches r query = Some (haystackIncludesTerm (buildHaystack r) (TERMt u e False))"
    using matches_single_term by blast
  have quoted: "(q = SQ \<or> q = DQ) \<and> q \<notin> set w \<and> toLowerCase (trim w) \<noteq> [] \<longrightarrow>
        tokenizeQuery (q # w @ [q]) = [TERMt (toLowerCase (trim w)) True False]"
    using tokenizeQuery_quoted by blast
  have word: "plainTerm t \<longrightarrow> tokenizeQuery t = [TERMt (toLowerCase t) False False]"
    using tokenizeQuery_plainTerm by blast
  have catalog: "matches (fileRecord ''catalog.png'') [SQ, CHR ''c'', CHR ''a'', CHR ''t'', SQ] = Some False"
    by code_simp
  have cat: "matches (fileRecord ''cat.png'') [SQ, CHR ''c'', CHR ''a'', CHR ''t'', SQ] = Some True"
    by code_simp
  show ?thesis
    by (intro conjI) (fact exact plain single quoted word catalog cat)+
qed

theorem exact_term_matches_whole_words_witness:
  "SQ \<notin> set ''Cat '' \<and> toLowerCase (trim ''Cat '') = ''cat''
   \<and> tokenizeQuery (SQ # ''Cat '' @ [SQ]) = [TERMt ''cat'' True False]
   \<and> matches (fileRecord ''tom cat.png'') (SQ # ''Cat '' @ [SQ])
       = Some (haystackIncludesTerm (buildHaystack (fileRecord ''tom cat.png'')) (TERMt ''cat'' True False))
   \<and> haystackIncludesTerm (buildHaystack (fileRecord ''tom cat.png'')) (TERMt ''cat'' True False)
   \<and> plainTerm ''cat''
   \<and> tokenizeQuery ''cat'' = [TERMt ''cat'' False False]
   \<and> matches (fileRecord ''catalog.png'') ''cat''
       = Some (haystackIncludesTerm (buildHaystack (fileRecord ''catalog.png'')) (TERMt ''cat'' False False))
   \<and> haystackIncludesTerm (buildHaystack (fileRecord ''catalog.png'')) (TERMt ''cat'' False False)"
proof -
  have a: "SQ \<notin> set ''Cat ''" by simp
  have b: "toLowerCase (trim ''Cat '') = ''cat''" by code_simp
  have c: "haystackIncludesTerm (buildHaystack (fileRecord ''tom cat.png'')) (TERMt ''cat'' True False)"
    by code_simp
  have d: "plainTerm ''cat''" by code_simp
  have e: "haystackIncludesTerm (buildHaystack (fileRecord ''catalog.png'')) (TERMt ''cat'' False False)"
    by code_simp
  have low: "toLowerCase ''cat'' = ''cat''" by code_simp
  note quoted = exact_term_matches_whole_words
    [of "[]" "[]" False "[]" "[]" False emptyRecord SQ "''Cat ''" "''cat''",
      THEN conjunct2, THEN conjunct2, THEN conjunct2, THEN conjunct1]
  note word = exact_term_matches_whole_words
    [of "[]" "[]" False "[]" "[]" False emptyRecord SQ "''Cat ''" "''cat''",
      THEN conjunct2, THEN conjunct2, THEN conjunct2, THEN conjunct2, THEN conjunct1]
  from quoted a b
  have f: "tokenizeQuery (SQ # ''Cat '' @ [SQ]) = [TERMt ''cat'' True False]" by simp
  from word d
  have g: "tokenizeQuery ''cat'' = [TERMt ''cat'' False False]" by (simp add: low)
  note single1 = exact_term_matches_whole_words
    [of "[]" "[]" False "SQ # ''Cat '' @ [SQ]" "''cat''" True "fileRecord ''tom cat.png''" SQ "[]" "[]",
      THEN conjunct2, THEN conjunct2, THEN conjunct1]
  note single2 = exact_term_matches_whole_words
    [of "[]" "[]" False "''cat''" "''cat''" False "fileRecord ''catalog.png''" SQ "[]" "[]",
      THEN conjunct2, THEN conjunct2, THEN conjunct1]
  from single1 f
  have h: "matches (fileRecord ''tom cat.png'') (SQ # ''Cat '' @ [SQ])
       = Some (haystackIncludesTerm (buildHaystack (fileRecord ''tom cat.png'')) (TERMt ''cat'' True False))"
    by simp
  from single2 g
  have i: "matches (fileRecord ''catalog.png'') ''cat''
       = Some (haystackIncludesTerm (buildHaystack (fileRecord ''catalog.png'')) (TERMt ''cat'' False False))"
    by simp
  show ?thesis
    by (intro conjI) (fact a b f h c d g i e)+
qed

section \<open>Keywords\<close>

lemma lowerChar_letter:
  assumes "lowerChar c = l" and "97 \<le> (of_char l :: nat)" and "(of_char l :: nat) \<le> 122"
  shows "isLetter c"
proof (cases "65 \<le> (of_char c :: nat) \<and> (of_char c :: nat) \<le> 90")
  case True
  then show ?thesis by (simp add: isLetter_def)
next
  case False
  with assms(1) have "c = l" by (auto simp: lowerChar_def)
  with assms(2,3) show ?thesis by (simp add: isLetter_def)
qed

lemma isLetter_not_special:
  "isLetter c \<Longrightarrow> \<not> isSpace c \<and> c \<noteq> DASH \<and> c \<noteq> LP \<and> c \<noteq> RP \<and> c \<noteq> SQ \<and> c \<noteq> DQ"
  by (auto simp: isLetter_def isSpace_def)

lemma keyword_letters:
  assumes "isKeyword kw"
  shows "kw \<noteq> [] \<and> (\<forall>c\<in>set kw. isLetter c) \<and> 2 \<le> length kw"
proof -
  have l: "isLetter c" if "lowerChar c = CHR ''a'' \<or> lowerChar c = CHR ''n'' \<or> lowerChar c = CHR ''d''
      \<or> lowerChar c = CHR ''o'' \<or> lowerChar c = CHR ''r'' \<or> lowerChar c = CHR ''t''" for c
    using that by (auto elim!: lowerChar_letter)
  from assms consider "toLowerCase kw = ''and''" | "toLowerCase kw = ''or''" | "toLowerCase kw = ''not''"
    unfolding isKeyword_def by blast
  then show ?thesis
  proof cases
    case 1
    then obtain a b c where "kw = [a, b, c]" "lowerChar a = CHR ''a''" "lowerChar b = CHR ''n''"
      "lowerChar c = CHR ''d''" by (auto simp: toLowerCase_def map_eq_Cons_conv)
    with l show ?thesis by auto
  next
    case 2
    then obtain a b where "kw = [a, b]" "lowerChar a = CHR ''o''" "lowerChar b = CHR ''r''"
      by (auto simp: toLowerCase_def map_eq_Cons_conv)
    with l show ?thesis by auto
  next
    case 3
    then obtain a b c where "kw = [a, b, c]" "lowerChar a = CHR ''n''" "lowerChar b = CHR ''o''"
      "lowerChar c = CHR ''t''" by (auto simp: toLowerCase_def map_eq_Cons_conv)
    with l show ?thesis by auto
  qed
qed

lemma isLetter_runChar: "isLetter c \<Longrightarrow> isRunChar c"
  using isLetter_not_special [of c] by (simp add: isRunChar_def)

lemma dash_runChar: "isRunChar DASH \<and> \<not> isSpace DASH"
  by (simp add: isRunChar_def isSpace_def)

lemma dashes_keyword_facts:
  fixes n :: nat
  assumes kw: "isKeyword kw"
  defines "lx \<equiv> replicate n DASH @ kw"
  shows "trim lx = lx" "lx \<noteq> [DASH]" "dropWhile (\<lambda>c. c = DASH) lx = kw"
    "hd lx = DASH \<longleftrightarrow> 0 < n" "lx \<noteq> []" "rawTokens lx = [lx]"
proof -
  from keyword_letters [OF kw] have ne: "kw \<noteq> []" and ltr: "\<forall>c\<in>set kw. isLetter c" by auto
  from ne ltr have h: "isLetter (hd kw)" and l: "isLetter (last kw)" by auto
  show lne: "lx \<noteq> []" using ne by (simp add: lx_def)
  have hd: "hd lx = (if n = 0 then hd kw else DASH)"
    using ne by (cases n) (auto simp: lx_def)
  have last: "last lx = last kw" using ne by (simp add: lx_def)
  show "trim lx = lx"
    using lne hd last h l by (intro trim_id) (auto dest: isLetter_not_special simp: isSpace_def)
  show "lx \<noteq> [DASH]"
  proof
    assume "lx = [DASH]"
    then have "last lx = DASH" by simp
    with last l show False by (auto dest: isLetter_not_special)
  qed
  show "dropWhile (\<lambda>c. c = DASH) lx = kw"
    using ne h unfolding lx_def
    by (induction n) (auto dest: isLetter_not_special simp: dropWhile_eq_self_iff)
  show "hd lx = DASH \<longleftrightarrow> 0 < n"
    using hd h by (auto dest: isLetter_not_special)
  have run: "\<forall>c\<in>set lx. isRunChar c"
  proof
    fix c assume "c \<in> set lx"
    then have "c = DASH \<or> c \<in> set kw" by (auto simp: lx_def)
    with ltr show "isRunChar c" using dash_runChar isLetter_runChar by blast
  qed
  from lne obtain c cs where lx: "lx = c # cs" by (cases lx) auto
  with hd have "c = DASH \<or> c = hd kw" by (cases "n = 0") auto
  with isLetter_not_special [OF h]
  have c: "\<not> (c = LP \<or> c = RP)" "\<not> isSpace c" "c \<noteq> SQ" "c \<noteq> DQ"
    by (auto simp: isSpace_def)
  then have nq: "\<not> ((c = SQ \<or> c = DQ) \<and> c \<in> set cs)" by simp
  from run lx have tw: "takeWhile isRunChar cs = cs" "dropWhile isRunChar cs = []" by auto
  from rawTokens_run [OF c(1) nq c(2)] show "rawTokens lx = [lx]"
    by (simp only: lx tw rawTokens_Nil)
qed

lemma keyword_lexeme_facts:
  assumes kw: "isKeyword kw"
  shows "peelParens toks ng kw = (toks, ng, kw)"
    "takeWhile (\<lambda>c. c = RP) (rev kw) = []" "dropWhile (\<lambda>c. c = RP) (rev kw) = rev kw"
    "\<not> fullyQuoted SQ kw" "\<not> fullyQuoted DQ kw" "\<exists>x\<in>set kw. x \<noteq> RP"
proof -
  from keyword_letters [OF kw] have ne: "kw \<noteq> []" and ltr: "\<forall>c\<in>set kw. isLetter c" by auto
  from ne ltr have h: "isLetter (hd kw)" and l: "isLetter (last kw)" by auto
  from h have "hd kw \<noteq> LP" by (auto dest: isLetter_not_special)
  from peelParens_id [OF ne this] show "peelParens toks ng kw = (toks, ng, kw)" .
  from l have lr: "last kw \<noteq> RP" by (auto dest: isLetter_not_special)
  from no_trailing_parens [OF ne this]
  show "takeWhile (\<lambda>c. c = RP) (rev kw) = []" "dropWhile (\<lambda>c. c = RP) (rev kw) = rev kw" by auto
  from h show "\<not> fullyQuoted SQ kw" "\<not> fullyQuoted DQ kw"
    by (auto simp: fullyQuoted_def dest: isLetter_not_special)
  from ne lr show "\<exists>x\<in>set kw. x \<noteq> RP" using last_in_set [of kw] by blast
qed

lemma tokenizeStep_keyword_lexeme:
  assumes tr: "trim lx = lx" and ne: "lx \<noteq> []" and nd: "lx \<noteq> [DASH]"
    and dd: "dropWhile (\<lambda>c. c = DASH) lx = kw" and kw: "isKeyword kw"
  shows "tokenizeStep (toks, pend) lx
     = (if pend \<or> hd lx = DASH then toks @ [TERMt (toLowerCase kw) False True]
        else toks @ [keywordToken kw], False)"
proof -
  note k = keyword_lexeme_facts [OF kw]
  from keyword_letters [OF kw] have kne: "kw \<noteq> []" and len: "\<not> length (toLowerCase kw) < 2"
    by (auto simp: toLowerCase_def)
  from kw have cases: "toLowerCase kw = ''and'' \<or> toLowerCase kw = ''or'' \<or> toLowerCase kw = ''not''"
    by (simp add: isKeyword_def)
  have body: "tokenizeStep (toks, pend) lx =
      (if \<not> (pend \<or> hd lx = DASH) \<and> toLowerCase kw = ''and'' then (toks @ [AND], False)
       else if \<not> (pend \<or> hd lx = DASH) \<and> toLowerCase kw = ''or'' then (toks @ [OR], False)
       else if \<not> (pend \<or> hd lx = DASH) \<and> toLowerCase kw = ''not'' then (toks @ [NOT], False)
       else (toks @ [TERMt (toLowerCase kw) False (pend \<or> hd lx = DASH)], False))"
  proof -
    from k(6) have k6: "(\<forall>x\<in>set kw. x = RP) = False" by blast
    show ?thesis
      unfolding tokenizeStep_def
      using ne nd kne len k(4,5)
      by (simp add: tr dd k(1,2,3) k6 Let_def)
  qed
  from cases show ?thesis
    unfolding body by (auto simp: keywordToken_def)
qed

lemma tokenizeStep_keyword:
  assumes kw: "isKeyword kw"
  shows "tokenizeStep (toks, pend) (replicate n DASH @ kw)
     = (if pend \<or> 0 < n then toks @ [TERMt (toLowerCase kw) False True]
        else toks @ [keywordToken kw], False)"
proof -
  note d = dashes_keyword_facts [OF kw, of n]
  from tokenizeStep_keyword_lexeme [OF d(1) d(5) d(2) d(3) kw, of toks pend]
  show ?thesis by (simp only: d(4))
qed

lemma tokenizeQuery_keyword:
  assumes kw: "isKeyword kw"
  shows "tokenizeQuery (replicate n DASH @ kw)
     = (if 0 < n then [TERMt (toLowerCase kw) False True] else [keywordToken kw])"
  by (simp add: tokenizeQuery_def dashes_keyword_facts(6) [OF kw] tokenizeStep_keyword [OF kw]
      del: rawTokens.simps)

text \<open>
  Claim C6.  A lexeme that is \<open>and\<close>, \<open>or\<close> or \<open>not\<close> in any casing, possibly
  behind dashes, becomes the operator token only when it carries no dash and no
  negation is pending; otherwise it becomes a \<open>TERM\<close> whose value is the lowercased
  word, of length at least 2, with \<open>negated\<close> set.  So \<open>-and\<close> is the term \<open>and\<close>,
  negated, and not the operator.
\<close>

theorem keyword_is_operator_only_when_not_negated:
  assumes "isKeyword kw"
  shows "tokenizeStep (toks, pend) (replicate n DASH @ kw)
           = (if pend \<or> 0 < n then toks @ [TERMt (toLowerCase kw) False True]
              else toks @ [keywordToken kw], False)
     \<and> tokenizeQuery kw = [keywordToken kw]
     \<and> tokenizeQuery (DASH # kw) = [TERMt (toLowerCase kw) False True]
     \<and> 2 \<le> length (toLowerCase kw)
     \<and> (keywordToken kw = AND \<longleftrightarrow> toLowerCase kw = ''and'')
     \<and> (keywordToken kw = OR \<longleftrightarrow> toLowerCase kw = ''or'')
     \<and> (keywordToken kw = NOT \<longleftrightarrow> toLowerCase kw = ''not'')"
proof -
  have a: "tokenizeQuery kw = [keywordToken kw]"
    using tokenizeQuery_keyword [OF assms, of 0] by simp
  have b: "tokenizeQuery (DASH # kw) = [TERMt (toLowerCase kw) False True]"
    using tokenizeQuery_keyword [OF assms, of 1] by simp
  have c: "2 \<le> length (toLowerCase kw)"
    using keyword_letters [OF assms] by (simp add: toLowerCase_def)
  have d: "(keywordToken kw = AND \<longleftrightarrow> toLowerCase kw = ''and'')
     \<and> (keywordToken kw = OR \<longleftrightarrow> toLowerCase kw = ''or'')
     \<and> (keywordToken kw = NOT \<longleftrightarrow> toLowerCase kw = ''not'')"
    using assms by (auto simp: keywordToken_def isKeyword_def)
  from tokenizeStep_keyword [OF assms, of toks pend n] a b c d show ?thesis by simp
qed

theorem keyword_is_operator_only_when_not_negated_witness:
  "isKeyword ''And''
   \<and> tokenizeQuery ''And'' = [AND]
   \<and> tokenizeQuery ''-And'' = [TERMt ''and'' False True]
   \<and> tokenizeStep ([], True) ''And'' = ([TERMt ''and'' False True], False)
   \<and> tokenizeQuery ''-and'' = [TERMt ''and'' False True]
   \<and> tokenizeQuery ''x -OR y'' = [TERMt ''x'' False False, TERMt ''or'' False True, TERMt ''y'' False False]"
proof -
  have k: "isKeyword ''And''" "isKeyword ''and''" by code_simp+
  have low: "toLowerCase ''And'' = ''and''" "toLowerCase ''and'' = ''and''" by code_simp+
  have tok: "keywordToken ''And'' = AND" by code_simp
  note t1 = keyword_is_operator_only_when_not_negated [OF k(1), of "[]" True 0]
  note t2 = keyword_is_operator_only_when_not_negated [OF k(2), of "[]" False 0]
  from t1 have a: "tokenizeQuery ''And'' = [AND]" by (simp add: tok)
  from t1 have b: "tokenizeQuery ''-And'' = [TERMt ''and'' False True]" by (simp add: low)
  from t1 have c: "tokenizeStep ([], True) ''And'' = ([TERMt ''and'' False True], False)"
    by (simp add: low)
  from t2 have d: "tokenizeQuery ''-and'' = [TERMt ''and'' False True]" by (simp add: low)
  have e: "tokenizeQuery ''x -OR y''
      = [TERMt ''x'' False False, TERMt ''or'' False True, TERMt ''y'' False False]"
    by code_simp
  show ?thesis
    by (intro conjI) (fact k(1) a b c d e)+
qed

section \<open>A query of one term\<close>

lemma split_length: "length xs = length (takeWhile P xs) + length (dropWhile P xs)"
proof -
  have "length (takeWhile P xs @ dropWhile P xs) = length xs" by (simp only: takeWhile_dropWhile_id)
  then show ?thesis by (simp only: length_append)
qed

lemma rawTokens_length: "length (concat (rawTokens s)) \<le> length s"
proof (induction s rule: rawTokens.induct)
  case 1
  then show ?case by simp
next
  case (2 c cs)
  show ?case
  proof (cases "c = LP \<or> c = RP")
    case True
    have "length (concat (rawTokens (c # cs))) = Suc (length (concat (rawTokens cs)))"
      by (simp add: rawTokens_paren [OF True] del: rawTokens.simps)
    with "2.IH"(1) [OF True] show ?thesis by (simp del: rawTokens.simps)
  next
    case paren: False
    show ?thesis
    proof (cases "(c = SQ \<or> c = DQ) \<and> c \<in> set cs")
      case True
      let ?d = "dropWhile (\<lambda>d. d \<noteq> c) cs"
      let ?t = "takeWhile (\<lambda>d. d \<noteq> c) cs"
      from True have ne: "?d \<noteq> []" by simp
      then have "length ?d = Suc (length (tl ?d))" by (cases ?d) simp_all
      with split_length [of cs "\<lambda>d. d \<noteq> c"]
      have len: "length cs = length ?t + Suc (length (tl ?d))" by linarith
      have "length (concat (rawTokens (c # cs)))
          = Suc (Suc (length ?t)) + length (concat (rawTokens (tl ?d)))"
        by (simp add: rawTokens_quoted [OF True] del: rawTokens.simps length_tl)
      with "2.IH"(2) [OF paren True] len show ?thesis by simp
    next
      case quote: False
      show ?thesis
      proof (cases "isSpace c")
        case True
        have "rawTokens (c # cs) = rawTokens cs" by (rule rawTokens_space [OF True])
        with "2.IH"(3) [OF paren quote True] show ?thesis by (simp del: rawTokens.simps)
      next
        case False
        have "length (concat (rawTokens (c # cs)))
            = Suc (length (takeWhile isRunChar cs)) + length (concat (rawTokens (dropWhile isRunChar cs)))"
          by (simp add: rawTokens_run [OF paren quote False] del: rawTokens.simps)
        with "2.IH"(4) [OF paren quote False] split_length [of cs isRunChar] show ?thesis
          by simp
      qed
    qed
  qed
qed

lemma tokenizeStep_paren:
  "tokenizeStep ([], False) [LP] = ([LPAREN], False)"
  "tokenizeStep ([], False) [RP] = ([RPAREN], False)"
  by (simp_all add: tokenizeStep_def trim_def isSpace_def)

lemma tokenizeStep_quoted_lexeme:
  assumes q: "q = SQ \<or> q = DQ" and v: "q \<notin> set w"
  shows "fst (tokenizeStep ([], False) (q # w @ [q]))
     = (if toLowerCase (trim w) \<noteq> [] then [TERMt (toLowerCase (trim w)) True False] else [])"
proof -
  let ?tok = "q # w @ [q]"
  have fq: "fullyQuoted q ?tok" using v by (simp add: fullyQuoted_def)
  have peel: "peelParens [] False ?tok = ([], False, ?tok)" using q by auto
  show ?thesis
    unfolding tokenizeStep_def
    using q fq
    by (simp add: trim_quoted [OF q] Let_def) (auto simp: peel)
qed

lemma tokenizeStep_dash_not_plain:
  assumes t: "t \<noteq> []" and h: "hd t = DASH" and run: "list_all isRunChar t"
  shows "fst (tokenizeStep ([], False) t) \<noteq> [TERMt v e False]"
proof -
  from t run have l: "\<not> isSpace (last t)" "last t \<noteq> RP"
    using last_in_set [of t] by (auto simp: list_all_iff isRunChar_def)
  from h have hs: "\<not> isSpace (hd t)" by (simp add: isSpace_def)
  note tr = trim_id [OF t hs l(1)]
  let ?k = "dropWhile (\<lambda>c. c = DASH) t"
  show ?thesis
  proof (cases "?k = []")
    case True
    then show ?thesis
      unfolding tokenizeStep_def using t h by (simp add: tr Let_def)
  next
    case False
    then have "hd ?k \<in> set t" using hd_in_set [OF False] set_dropWhileD by metis
    with run have "hd ?k \<noteq> LP" by (auto simp: list_all_iff isRunChar_def)
    note peel = peelParens_id [OF False this, of "[]" True]
    from False have "last ?k = last t" by (metis last_appendR takeWhile_dropWhile_id)
    with l have "last ?k \<noteq> RP" by simp
    note tp = no_trailing_parens [OF False this]
    from False have nd: "t \<noteq> [DASH]" by auto
    from False have ex: "(\<forall>x\<in>set ?k. x = RP) = False"
      using \<open>last ?k \<noteq> RP\<close> last_in_set [OF False] by blast
    show ?thesis
      unfolding tokenizeStep_def using t h nd False
      by (simp add: tr Let_def peel tp ex)
  qed
qed

lemma single_term_is_plain:
  assumes raw: "rawTokens t = [t]" and tok: "tokenizeQuery t = [TERMt v False False]"
  shows "plainTerm t \<and> v = toLowerCase t"
proof -
  from tok raw have step: "fst (tokenizeStep ([], False) t) = [TERMt v False False]"
    by (simp add: tokenizeQuery_def del: rawTokens.simps)
  from raw obtain c cs where t: "t = c # cs" by (cases t) auto
  have paren: "\<not> (c = LP \<or> c = RP)"
  proof
    assume p: "c = LP \<or> c = RP"
    from raw t have "cs = []" by (simp only: rawTokens_paren [OF p]) simp
    with p t step show False by (auto simp: tokenizeStep_paren)
  qed
  have quote: "\<not> ((c = SQ \<or> c = DQ) \<and> c \<in> set cs)"
  proof
    assume q: "(c = SQ \<or> c = DQ) \<and> c \<in> set cs"
    from raw t have "cs = takeWhile (\<lambda>d. d \<noteq> c) cs @ [c]"
      by (simp only: rawTokens_quoted [OF q]) simp
    moreover have "c \<notin> set (takeWhile (\<lambda>d. d \<noteq> c) cs)" by (auto dest: set_takeWhileD)
    ultimately obtain w where w: "cs = w @ [c]" "c \<notin> set w" by blast
    from q have "c = SQ \<or> c = DQ" by simp
    from tokenizeStep_quoted_lexeme [OF this w(2)] step t w(1) show False
      by (auto split: if_splits)
  qed
  have space: "\<not> isSpace c"
  proof
    assume s: "isSpace c"
    from raw t have "rawTokens cs = [c # cs]" by (simp only: rawTokens_space [OF s])
    with rawTokens_length [of cs] show False by simp
  qed
  from raw t have run: "takeWhile isRunChar cs = cs"
    by (simp only: rawTokens_run [OF paren quote space]) simp
  then have "\<forall>x\<in>set cs. isRunChar x" by (metis set_takeWhileD)
  with paren space t have all: "list_all isRunChar t" by (simp add: list_all_iff isRunChar_def)
  have dash: "hd t \<noteq> DASH"
    using tokenizeStep_dash_not_plain [of t v False] all step t by auto
  have kw: "\<not> isKeyword t"
  proof
    assume "isKeyword t"
    from tokenizeStep_keyword [OF this, of "[]" False 0] step show False
      by (auto simp: keywordToken_def split: if_splits)
  qed
  from t all dash quote kw have plain: "plainTerm t"
    by (simp add: plainTerm_def isKeyword_def)
  from tokenizeStep_plainTerm [OF plain, of "[]"] step have "v = toLowerCase t" by simp
  with plain show ?thesis by simp
qed

text \<open>
  Claim C5.  Let the query \<open>t\<close> be one lexeme of the scan that becomes one term token,
  neither exact nor negated, with a value of at least two characters.  Then the query
  \<open>-t\<close> is the same term negated, and \<open>matches\<close> on \<open>-t\<close> is true exactly when
  \<open>matches\<close> on \<open>t\<close> is false.
\<close>

theorem negated_term_inverts_match:
  assumes "rawTokens t = [t]" and "tokenizeQuery t = [TERMt v False False]" and "2 \<le> length v"
  shows "tokenizeQuery (DASH # t) = [TERMt v False True]
     \<and> (\<exists>b. matches r t = Some b \<and> matches r (DASH # t) = Some (\<not> b))"
proof -
  from single_term_is_plain [OF assms(1,2)] have p: "plainTerm t" and v: "v = toLowerCase t"
    by simp_all
  from assms(3) v have l: "2 \<le> length t" by (simp add: toLowerCase_def)
  from tokenizeQuery_dash_plainTerm [OF p l] matches_plainTerm [OF p] matches_dash_plainTerm [OF p l] v
  show ?thesis by simp
qed

theorem negated_term_inverts_match_witness:
  "rawTokens ''Archer'' = [''Archer''] \<and> tokenizeQuery ''Archer'' = [TERMt ''archer'' False False]
   \<and> 2 \<le> length ''archer''
   \<and> tokenizeQuery ''-Archer'' = [TERMt ''archer'' False True]
   \<and> matches (fileRecord ''goblin_archer.png'') ''Archer'' = Some True
   \<and> matches (fileRecord ''goblin_archer.png'') ''-Archer'' = Some False
   \<and> matches (fileRecord ''goblin.png'') ''Archer'' = Some False
   \<and> matches (fileRecord ''goblin.png'') ''-Archer'' = Some True"
proof -
  have p: "rawTokens ''Archer'' = [''Archer'']" by code_simp
  have q: "tokenizeQuery ''Archer'' = [TERMt ''archer'' False False]" by code_simp
  have l: "2 \<le> length ''archer''" by simp
  have m1: "matches (fileRecord ''goblin_archer.png'') ''Archer'' = Some True" by code_simp
  have m2: "matches (fileRecord ''goblin.png'') ''Archer'' = Some False" by code_simp
  from negated_term_inverts_match [OF p q l, of "fileRecord ''goblin_archer.png''"] m1
  have a: "tokenizeQuery ''-Archer'' = [TERMt ''archer'' False True]"
    and b: "matches (fileRecord ''goblin_archer.png'') ''-Archer'' = Some False" by auto
  from negated_term_inverts_match [OF p q l, of "fileRecord ''goblin.png''"] m2
  have c: "matches (fileRecord ''goblin.png'') ''-Archer'' = Some True" by auto
  show ?thesis
    by (intro conjI) (fact p q l a m1 b m2 c)+
qed

section \<open>The haystack\<close>

lemma field_text: "textOrAbsent v \<Longrightarrow> joinElem (jsOr v (JString [])) = (case v of JString s \<Rightarrow> s | _ \<Rightarrow> [])"
  by (cases v) (auto simp: textOrAbsent_def jsOr_def)

lemma toLowerCase_append: "toLowerCase (a @ b) = toLowerCase a @ toLowerCase b"
  by (simp add: toLowerCase_def)

lemma haystack_refines_spec:
  assumes "textRecord r"
  shows "buildHaystack r = spec_haystack r"
proof -
  from assms have f: "textOrAbsent (r ''display_name'')" "textOrAbsent (r ''filename'')"
    "textOrAbsent (r ''path'')" "textOrAbsent (r ''size'')" "textOrAbsent (r ''creature_type'')"
    "textOrAbsent (r ''variant'')" "textOrAbsent (r ''source'')" "textOrAbsent (r ''tier'')"
    "textOrAbsent (r ''color_variant'')"
    and t: "case r ''tags'' of JNumber n \<Rightarrow> False | _ \<Rightarrow> True"
    by (simp_all add: textRecord_def)
  have tags: "joinElem (case r ''tags'' of JArray xs \<Rightarrow> JString (joinWith '' '' xs)
                                     | v \<Rightarrow> jsOr v (JString [])) = spec_tagsText r"
    using t by (cases "r ''tags''") (auto simp: spec_tagsText_def jsOr_def)
  have sc: "joinElem (jsOr (JString (''s'' @ toStr (r ''scale'') @ ''x'')) (JString []))
      = ''s'' @ toStr (r ''scale'') @ ''x''"
    by (simp add: jsOr_def)
  have gr: "joinElem (jsOr (JString (toStr (r ''grid_width'') @ ''x'' @ toStr (r ''grid_height''))) (JString []))
      = toStr (r ''grid_width'') @ ''x'' @ toStr (r ''grid_height'')"
    by (simp add: jsOr_def)
  show ?thesis
    unfolding buildHaystack_def spec_haystack_def Let_def list.map
    by (simp only: f [THEN field_text] tags sc gr spec_textField_def)
qed

lemma joinElem_text:
  "joinElem (jsOr (JString (a # s)) (JString [])) = a # s"
  "joinElem (jsOr (JString (u @ a # s)) (JString [])) = u @ a # s"
  by (simp_all add: jsOr_def)

lemma haystack_shape:
  "\<exists>a b c d. buildHaystack r =
      toLowerCase (a @ '' '' @ b @ '' '' @ c @ '' s'' @ toStr (r ''scale'') @ ''x ''
         @ toStr (r ''grid_width'') @ ''x'' @ toStr (r ''grid_height'') @ '' '' @ d)"
proof -
  have sc: "joinElem (jsOr (JString (''s'' @ toStr (r ''scale'') @ ''x'')) (JString []))
      = ''s'' @ toStr (r ''scale'') @ ''x''"
    by (simp add: jsOr_def)
  have gr: "joinElem (jsOr (JString (toStr (r ''grid_width'') @ ''x'' @ toStr (r ''grid_height''))) (JString []))
      = toStr (r ''grid_width'') @ ''x'' @ toStr (r ''grid_height'')"
    by (simp add: jsOr_def)
  show ?thesis
    unfolding buildHaystack_def Let_def list.map
    apply (rule exI [of _ "joinElem (jsOr (r ''display_name'') (JString []))"])
    apply (rule exI [of _ "joinElem (jsOr (r ''filename'') (JString []))"])
    apply (rule exI [of _ "joinElem (jsOr (r ''path'') (JString []))"])
    apply (rule exI [of _ "joinWith '' ''
         [joinElem (jsOr (r ''size'') (JString [])),
          joinElem (jsOr (r ''creature_type'') (JString [])),
          joinElem (jsOr (r ''variant'') (JString [])),
          joinElem (jsOr (r ''source'') (JString [])),
          joinElem (jsOr (r ''tier'') (JString [])),
          joinElem (jsOr (r ''color_variant'') (JString [])),
          joinElem (case r ''tags'' of JArray xs \<Rightarrow> JString (joinWith '' '' xs)
                                     | v \<Rightarrow> jsOr v (JString []))]"])
    apply (simp only: joinWith.simps append_assoc append_Cons append_Nil joinElem_text)
    done
qed

lemma undefined_scale:
  assumes "r ''scale'' = JUndefined"
  shows "includesStr (buildHaystack r) ''sundefinedx''"
proof -
  from haystack_shape [of r] obtain a b c d where "buildHaystack r =
      toLowerCase (a @ '' '' @ b @ '' '' @ c @ '' s'' @ toStr (r ''scale'') @ ''x ''
         @ toStr (r ''grid_width'') @ ''x'' @ toStr (r ''grid_height'') @ '' '' @ d)" by blast
  with assms have "buildHaystack r = toLowerCase (a @ '' '' @ b @ '' '' @ c @ '' '') @ ''sundefinedx''
      @ toLowerCase ('' '' @ toStr (r ''grid_width'') @ ''x'' @ toStr (r ''grid_height'') @ '' '' @ d)"
    by (simp add: toLowerCase_def lowerChar_def)
  then show ?thesis unfolding includesStr_iff by blast
qed

lemma undefined_grid:
  assumes "r ''grid_width'' = JUndefined" and "r ''grid_height'' = JUndefined"
  shows "includesStr (buildHaystack r) ''undefinedxundefined''"
proof -
  from haystack_shape [of r] obtain a b c d where "buildHaystack r =
      toLowerCase (a @ '' '' @ b @ '' '' @ c @ '' s'' @ toStr (r ''scale'') @ ''x ''
         @ toStr (r ''grid_width'') @ ''x'' @ toStr (r ''grid_height'') @ '' '' @ d)" by blast
  with assms have "buildHaystack r = toLowerCase (a @ '' '' @ b @ '' '' @ c @ '' s'' @ toStr (r ''scale'') @ ''x '')
      @ ''undefinedxundefined'' @ toLowerCase ('' '' @ d)"
    by (simp add: toLowerCase_def lowerChar_def)
  then show ?thesis unfolding includesStr_iff by blast
qed

text \<open>
  Claim C7.  For a record whose text fields are strings or absent, the haystack is the
  lowercased space-join of \<^verbatim>\<open>display_name\<close>, \<^verbatim>\<open>filename\<close>, \<^verbatim>\<open>path\<close>,
  \<^verbatim>\<open>'s' + scale + 'x'\<close>, \<^verbatim>\<open>grid_width + 'x' + grid_height\<close>, \<^verbatim>\<open>size\<close>,
  \<^verbatim>\<open>creature_type\<close>, \<^verbatim>\<open>variant\<close>, \<^verbatim>\<open>source\<close>, \<^verbatim>\<open>tier\<close>,
  \<^verbatim>\<open>color_variant\<close> and the tags, in this order.  For any record, an undefined scale
  puts \<open>sundefinedx\<close> in the haystack and undefined grid fields put
  \<open>undefinedxundefined\<close> there; the empty object matches the query \<open>sundefinedx\<close>.
\<close>

theorem haystack_fields_in_order:
  "(textRecord r \<longrightarrow> buildHaystack r = spec_haystack r)
   \<and> (r ''scale'' = JUndefined \<longrightarrow> includesStr (buildHaystack r) ''sundefinedx'')
   \<and> (r ''grid_width'' = JUndefined \<and> r ''grid_height'' = JUndefined \<longrightarrow>
        includesStr (buildHaystack r) ''undefinedxundefined'')
   \<and> buildHaystack emptyRecord = ''   sundefinedx undefinedxundefined       ''
   \<and> matches emptyRecord ''sundefinedx'' = Some True"
proof -
  have a: "buildHaystack emptyRecord = ''   sundefinedx undefinedxundefined       ''"
    by code_simp
  have b: "matches emptyRecord ''sundefinedx'' = Some True" by code_simp
  from haystack_refines_spec undefined_scale undefined_grid a b show ?thesis by blast
qed

theorem haystack_fields_in_order_witness:
  "textRecord (emptyRecord(''filename'' := JString ''Cat.png'', ''scale'' := JNumber 2,
       ''tags'' := JArray [''a'', ''B'']))
   \<and> buildHaystack (emptyRecord(''filename'' := JString ''Cat.png'', ''scale'' := JNumber 2,
       ''tags'' := JArray [''a'', ''B'']))
      = '' cat.png  s2x undefinedxundefined       a b''
   \<and> includesStr (buildHaystack (emptyRecord(''filename'' := JString ''Cat.png'', ''scale'' := JNumber 2,
       ''tags'' := JArray [''a'', ''B'']))) ''undefinedxundefined''
   \<and> includesStr (buildHaystack (fileRecord ''Cat.png'')) ''sundefinedx''"
proof -
  let ?r = "emptyRecord(''filename'' := JString ''Cat.png'', ''scale'' := JNumber 2,
       ''tags'' := JArray [''a'', ''B''])"
  have t: "textRecord ?r" by code_simp
  have s: "spec_haystack ?r = '' cat.png  s2x undefinedxundefined       a b''" by code_simp
  have g: "?r ''grid_width'' = JUndefined \<and> ?r ''grid_height'' = JUndefined"
    by (simp add: emptyRecord_def)
  have u: "fileRecord ''Cat.png'' ''scale'' = JUndefined"
    by (simp add: fileRecord_def emptyRecord_def)
  note inst1 = haystack_fields_in_order [of ?r]
  note inst2 = haystack_fields_in_order [of "fileRecord ''Cat.png''"]
  from inst1 [THEN conjunct1] t s
  have a: "buildHaystack ?r = '' cat.png  s2x undefinedxundefined       a b''" by simp
  from inst1 [THEN conjunct2, THEN conjunct2, THEN conjunct1] g
  have b: "includesStr (buildHaystack ?r) ''undefinedxundefined''" by simp
  from inst2 [THEN conjunct2, THEN conjunct1] u
  have c: "includesStr (buildHaystack (fileRecord ''Cat.png'')) ''sundefinedx''" by simp
  show ?thesis
    by (intro conjI) (fact t a b c)+
qed

section \<open>Records and the input array are left as they were\<close>

lemma sortBy_map:
  "sortBy cmp (map f xs) = map f (sortBy (\<lambda>a b. cmp (f a) (f b)) xs)"
proof -
  have ins: "insertBy cmp (f x) (map f ys) = map f (insertBy (\<lambda>a b. cmp (f a) (f b)) x ys)" for x ys
    by (induction ys) auto
  show ?thesis by (induction xs) (auto simp: sortBy_def ins)
qed

lemma readObj_append:
  "\<forall>c\<in>set xs. \<not> (\<exists>r. c = Obj r) \<Longrightarrow> readObj (h @ xs) a = readObj h a"
proof (cases "a < length h")
  case True
  then show ?thesis by (simp add: readObj_def nth_append)
next
  case False
  assume n: "\<forall>c\<in>set xs. \<not> (\<exists>r. c = Obj r)"
  show ?thesis
  proof (cases "a < length (h @ xs)")
    case True
    with False have "(h @ xs) ! a \<in> set xs" by (simp add: nth_append)
    with n have "\<not> (\<exists>r. (h @ xs) ! a = Obj r)" by blast
    with True False show ?thesis by (cases "(h @ xs) ! a") (auto simp: readObj_def)
  next
    case False
    then show ?thesis by (simp add: readObj_def)
  qed
qed

lemma compareRowsAt_append:
  "\<forall>c\<in>set xs. \<not> (\<exists>r. c = Obj r) \<Longrightarrow> compareRowsAt (h @ xs) lc = compareRowsAt h lc"
  by (intro ext) (simp add: compareRowsAt_def readObj_append)

lemma filter_heap_nonnull:
  assumes "parseQueryAST (tokenizeQuery (trim q)) = Some (Some ast)"
  shows "filter_heap lc h items q =
     Some (if heapKept ast h items = []
           then (length h + 2, h @ [Rows (heapRows h items), Rows (heapKept ast h items), Arr []])
           else (length h + 3,
                 h @ [Rows (heapRows h items), Rows (heapKept ast h items),
                      Scored (heapSorted lc ast h items),
                      Arr (map fst (heapSorted lc ast h items))]))"
proof -
  from assms have toks: "tokenizeQuery (trim q) \<noteq> []"
    by (auto simp: parseQueryAST_Nil)
  then have q: "trim q \<noteq> []" by (auto simp: tokenizeQuery_Nil)
  have o1: "readObj (h @ [Rows xs, Rows ys]) = readObj h" for xs ys
    by (intro ext readObj_append) simp
  have c1: "compareRowsAt (h @ [Rows xs, Rows ys, Scored zs]) lc = compareRowsAt h lc" for xs ys zs
    by (intro compareRowsAt_append) simp
  have u: "(h @ [Rows xs, Rows ys, Scored zs])[Suc (Suc (length h)) := c] = h @ [Rows xs, Rows ys, c]"
    for xs ys zs c
    by (simp add: list_update_append)
  show ?thesis
    using assms toks q
    apply (simp add: filter_heap_def Let_def)
    apply (simp add: alloc_def)
    apply (simp add: readRows_def readScored_def nth_append)
    apply (simp add: heapKept_def heapRows_def o1 c1 u heapSorted_def)
    done
qed

lemma filter_heap_frame:
  assumes "filter_heap lc h items q = Some (res, h')"
  shows "length h \<le> length h' \<and> (\<forall>a<length h. h' ! a = h ! a)"
proof -
  obtain a where a: "parseQueryAST (tokenizeQuery (trim q)) = Some a"
    using parseQueryAST_returns by blast
  show ?thesis
  proof (cases a)
    case None
    with a assms have "h' = h" by (auto simp: filter_heap_def Let_def split: if_splits)
    then show ?thesis by simp
  next
    case (Some ast)
    with a have "parseQueryAST (tokenizeQuery (trim q)) = Some (Some ast)" by simp
    from filter_heap_nonnull [OF this, of lc h items] assms
    obtain xs where "h' = h @ xs" by (auto split: if_splits)
    then show ?thesis by (simp add: nth_append)
  qed
qed

lemma filter_heap_returns: "\<exists>res h'. filter_heap lc h items q = Some (res, h')"
proof -
  obtain a where a: "parseQueryAST (tokenizeQuery (trim q)) = Some a"
    using parseQueryAST_returns by blast
  show ?thesis
  proof (cases a)
    case None
    with a show ?thesis by (auto simp: filter_heap_def Let_def)
  next
    case (Some ast)
    with a have "parseQueryAST (tokenizeQuery (trim q)) = Some (Some ast)" by simp
    from filter_heap_nonnull [OF this, of lc h items] show ?thesis by (auto split: if_splits)
  qed
qed

lemma rows_pure:
  "map (\<lambda>row. (readObj h (fst row), snd row))
     (map (\<lambda>row. (fst row, scoreMatch (readObj h (fst row)) (Some ast)))
        (filter (\<lambda>row. evaluateExpression (Some ast) (snd row))
           (map (\<lambda>item. (item, buildHaystack (readObj h item))) as)))
   = scoredRows ast (matching ast (map (readObj h) as))"
  by (induction as) (auto simp: scoredRows_def matching_def evaluateExpression_def)

lemma heapSorted_pure:
  "map (\<lambda>row. (readObj h (fst row), snd row)) (heapSorted lc ast h items)
   = sortBy (compareRows lc) (scoredRows ast (matching ast (map (readObj h) (readArr h items))))"
proof -
  let ?g = "\<lambda>row :: addr \<times> nat. (readObj h (fst row), snd row)"
  have c: "compareRowsAt h lc = (\<lambda>a b. compareRows lc (?g a) (?g b))"
    by (intro ext) (simp add: compareRowsAt_def)
  have "map ?g (heapSorted lc ast h items)
      = sortBy (compareRows lc) (map ?g
          (map (\<lambda>row. (fst row, scoreMatch (readObj h (fst row)) (Some ast))) (heapKept ast h items)))"
    unfolding heapSorted_def c by (rule sortBy_map [symmetric])
  then show ?thesis
    unfolding heapKept_def heapRows_def by (simp only: rows_pure)
qed

lemma filter_heap_refines:
  assumes "filter_heap lc h items q = Some (res, h')"
  shows "NexusSearchManager_filter lc (map (readObj h) (readArr h items)) q
           = Some (map (readObj h') (readArr h' res))"
proof -
  obtain a where a: "parseQueryAST (tokenizeQuery (trim q)) = Some a"
    using parseQueryAST_returns by blast
  show ?thesis
  proof (cases a)
    case None
    with a assms have "h' = h \<and> res = items" by (auto simp: filter_heap_def Let_def split: if_splits)
    moreover from None a have "NexusSearchManager_filter lc xs q = Some xs" for xs
      by (simp add: NexusSearchManager_filter_def Let_def)
    ultimately show ?thesis by simp
  next
    case (Some ast)
    with a have ast: "parseQueryAST (tokenizeQuery (trim q)) = Some (Some ast)" by simp
    let ?rs = "map (readObj h) (readArr h items)"
    have pure: "NexusSearchManager_filter lc ?rs q
        = Some (map fst (sortBy (compareRows lc) (scoredRows ast (matching ast ?rs))))"
      by (rule filter_nonnull [OF ast])
    have sorted: "map fst (sortBy (compareRows lc) (scoredRows ast (matching ast ?rs)))
        = map (readObj h) (map fst (heapSorted lc ast h items))"
      by (simp only: heapSorted_pure [symmetric]) (simp add: comp_def)
    show ?thesis
    proof (cases "heapKept ast h items = []")
      case True
      with filter_heap_nonnull [OF ast, of lc h items] assms
      have r: "res = length h + 2"
        "h' = h @ [Rows (heapRows h items), Rows (heapKept ast h items), Arr []]" by auto
      from True have "heapSorted lc ast h items = []" by (simp add: heapSorted_def sortBy_def)
      with pure sorted r show ?thesis by (simp add: readArr_def nth_append)
    next
      case False
      with filter_heap_nonnull [OF ast, of lc h items] assms
      have r: "res = length h + 3"
        "h' = h @ [Rows (heapRows h items), Rows (heapKept ast h items),
                   Scored (heapSorted lc ast h items), Arr (map fst (heapSorted lc ast h items))]"
        by auto
      have o: "readObj h' = readObj h"
        unfolding r by (intro ext readObj_append) simp
      have "readArr h' res = map fst (heapSorted lc ast h items)"
        unfolding r by (simp add: readArr_def nth_append)
      with pure sorted o show ?thesis by simp
    qed
  qed
qed

text \<open>
  Claim C9.  A call of \<open>filter\<close> returns and leaves every cell of the store it was
  given as it was: each record, field by field, and the input array; what it returns
  holds the records the function on values computes.  When the trimmed query is empty
  it returns the address of the input array itself and the store untouched.  A call of
  \<open>matches\<close> returns with the store untouched.
\<close>

theorem filter_and_matches_leave_records_unchanged:
  "(\<exists>res h'. filter_heap lc h items q = Some (res, h'))
   \<and> (\<forall>res h'. filter_heap lc h items q = Some (res, h') \<longrightarrow>
         length h \<le> length h' \<and> (\<forall>a<length h. h' ! a = h ! a)
         \<and> NexusSearchManager_filter lc (map (readObj h) (readArr h items)) q
             = Some (map (readObj h') (readArr h' res)))
   \<and> (trim q = [] \<longrightarrow> filter_heap lc h items q = Some (items, h))
   \<and> (\<exists>b. matches_heap h item q = Some (b, h) \<and> matches (readObj h item) q = Some b)"
proof -
  have e: "trim q = [] \<longrightarrow> filter_heap lc h items q = Some (items, h)"
    by (simp add: filter_heap_def)
  have m: "\<exists>b. matches_heap h item q = Some (b, h) \<and> matches (readObj h item) q = Some b"
    using matches_returns [of "readObj h item" q] by (auto simp: matches_heap_def)
  from filter_heap_returns filter_heap_frame filter_heap_refines e m show ?thesis by blast
qed

theorem filter_and_matches_leave_records_unchanged_witness:
  "(\<exists>h'. filter_heap compareLowercase
       [Obj (fileRecord ''orc.png''), Obj (fileRecord ''goblin.png''), Obj (fileRecord ''troll.png''),
        Arr [0, 1, 2]] 3 ''goblin OR orc'' = Some (7, h')
      \<and> h' ! 0 = Obj (fileRecord ''orc.png'') \<and> h' ! 1 = Obj (fileRecord ''goblin.png'')
      \<and> h' ! 2 = Obj (fileRecord ''troll.png'') \<and> h' ! 3 = Arr [0, 1, 2]
      \<and> readArr h' 7 = [1, 0])
   \<and> trim ''  '' = []
   \<and> filter_heap compareLowercase
       [Obj (fileRecord ''orc.png''), Obj (fileRecord ''goblin.png''), Obj (fileRecord ''troll.png''),
        Arr [0, 1, 2]] 3 ''  ''
       = Some (3, [Obj (fileRecord ''orc.png''), Obj (fileRecord ''goblin.png''),
                   Obj (fileRecord ''troll.png''), Arr [0, 1, 2]])"
proof -
  let ?h = "[Obj (fileRecord ''orc.png''), Obj (fileRecord ''goblin.png''),
             Obj (fileRecord ''troll.png''), Arr [0, 1, 2]]"
  note inst = filter_and_matches_leave_records_unchanged
    [of compareLowercase ?h 3 "''goblin OR orc''" 0]
  note blank = filter_and_matches_leave_records_unchanged
    [of compareLowercase ?h 3 "''  ''" 0, THEN conjunct2, THEN conjunct2, THEN conjunct1]
  from inst obtain res h' where r: "filter_heap compareLowercase ?h 3 ''goblin OR orc'' = Some (res, h')"
    by blast
  with inst have fr: "\<forall>a<length ?h. h' ! a = ?h ! a" by blast
  have "map_option (\<lambda>p. (fst p, readArr (snd p) (fst p)))
      (filter_heap compareLowercase ?h 3 ''goblin OR orc'') = Some (7, [1, 0])"
    by code_simp
  with r have res: "res = 7" "readArr h' 7 = [1, 0]" by auto
  have t: "trim ''  '' = []" by code_simp
  from fr have c: "h' ! 0 = Obj (fileRecord ''orc.png'')" "h' ! 1 = Obj (fileRecord ''goblin.png'')"
    "h' ! 2 = Obj (fileRecord ''troll.png'')" "h' ! 3 = Arr [0, 1, 2]" by simp_all
  from blank t have b: "filter_heap compareLowercase ?h 3 ''  '' = Some (3, ?h)" by simp
  show ?thesis
  proof (intro conjI exI [of _ h'])
  qed (use r res c t b in simp_all)
qed

section \<open>Within the call stack, and beyond it\<close>













lemma parens_term_unfold:
  "replicate k LPAREN @ [t] = (case k of 0 \<Rightarrow> [t] | Suc j \<Rightarrow> LPAREN # (replicate j LPAREN @ [t]))"
  by (cases k) simp_all
















end
